theory Spec2Isabelle
  imports Main "HOL-Library.Multiset" "HOL-Library.List_Lexorder"
begin

section \<open>Python values\<close>

text \<open>
  Exceptions the modelled code can raise, as values: Python's own, and the two that
  \<open>networkx.shortest_path\<close> raises, \<open>NodeNotFound\<close> and \<open>NetworkXNoPath\<close>.
  A function that can raise returns \<open>error + 'a\<close>, with \<open>Inl\<close> for the exception;
  \<open>bind_result\<close> runs the rest of a function body on the value of a call that
  returned, and passes an exception on.
\<close>

datatype error = IndexError | KeyError | ValueError | TypeError | AssertionError
  | RuntimeError | ZeroDivisionError | NodeNotFound | NetworkXNoPath

definition bind_result :: "error + 'a \<Rightarrow> ('a \<Rightarrow> error + 'b) \<Rightarrow> error + 'b" where
  "bind_result r f = (case r of Inl e \<Rightarrow> Inl e | Inr x \<Rightarrow> f x)"

text \<open>
  A numpy \<open>int64\<close> scalar: arithmetic on two of them wraps around modulo \<open>2 ^ 64\<close>
  into the range \<open>- 2 ^ 63 \<dots> 2 ^ 63 - 1\<close> (numpy only warns).
\<close>

definition int64_wrap :: "int \<Rightarrow> int" where
  "int64_wrap x = (x + 2 ^ 63) mod 2 ^ 64 - 2 ^ 63"

text \<open>
  A Python \<open>dict\<close> keeps its keys in insertion order, and iteration (also by \<open>min\<close>)
  follows that order: a dictionary is the list of its items, with distinct keys.
  Assigning to a key that is present keeps the key's position.
\<close>

type_synonym ('k, 'v) dict = "('k \<times> 'v) list"

fun dict_set :: "'k \<Rightarrow> 'v \<Rightarrow> ('k, 'v) dict \<Rightarrow> ('k, 'v) dict" where
  "dict_set k v [] = [(k, v)]"
| "dict_set k v ((k', v') # d) =
     (if k' = k then (k', v) # d else (k', v') # dict_set k v d)"

text \<open>
  \<open>min(iterable, key=f)\<close> replaces its candidate only by a strictly smaller element,
  so it returns the first of several minimal elements; on an empty iterable it raises
  \<open>ValueError\<close>. \<open>min(d, key=d.get)\<close> iterates the keys of \<open>d\<close> and compares their values.
\<close>

fun min_first :: "('a \<Rightarrow> 'b::linorder) \<Rightarrow> 'a \<Rightarrow> 'a list \<Rightarrow> 'a" where
  "min_first key best [] = best"
| "min_first key best (x # xs) = min_first key (if key x < key best then x else best) xs"

definition py_min_by_value :: "('k, 'v::linorder) dict \<Rightarrow> error + 'k" where
  "py_min_by_value d =
     (case d of [] \<Rightarrow> Inl ValueError | kv # rest \<Rightarrow> Inr (fst (min_first snd kv rest)))"

text \<open>
  Indexing a list, \<open>xs[i]\<close>: index \<open>-1\<close> is the last element, \<open>-len(xs)\<close> the first,
  and anything outside \<open>-len(xs) \<dots> len(xs) - 1\<close> raises \<open>IndexError\<close>.
\<close>

definition py_index :: "'a list \<Rightarrow> int \<Rightarrow> error + 'a" where
  "py_index xs i =
     (if 0 \<le> i \<and> i < int (length xs) then Inr (xs ! nat i)
      else if i < 0 \<and> - int (length xs) \<le> i then Inr (xs ! nat (int (length xs) + i))
      else Inl IndexError)"

subsection \<open>itertools.permutations\<close>

text \<open>
  \<open>itertools.permutations(xs)\<close> treats elements by position and emits the tuples in
  lexicographic order of the positions: first every permutation that starts with
  \<open>xs[0]\<close>, then every one that starts with \<open>xs[1]\<close>, and so on.
  \<open>selections xs\<close> lists each element of \<open>xs\<close> with the rest of the list.
\<close>

fun selections :: "'a list \<Rightarrow> ('a \<times> 'a list) list" where
  "selections [] = []"
| "selections (x # xs) = (x, xs) # map (\<lambda>(y, ys). (y, x # ys)) (selections xs)"

lemma selections_length: "(y, ys) \<in> set (selections xs) \<Longrightarrow> length ys < length xs"
  by (induction xs arbitrary: y ys) auto

function permutations :: "'a list \<Rightarrow> 'a list list" where
  "permutations [] = [[]]"
| "permutations (x # xs) =
     concat (map (\<lambda>(y, ys). map ((#) y) (permutations ys)) (selections (x # xs)))"
  by pat_completeness auto
termination
  by (relation "measure length") (auto dest: selections_length)

declare permutations.simps(2) [simp del]

section \<open>The environment\<close>

text \<open>
  The fields of \<open>TaxiEnv\<close> the code reads: the map description \<open>desc\<close>, the two
  counts, and the components of \<open>state\<close> it indexes by \<open>TAXIS_LOCATIONS\<close>,
  \<open>PASSENGERS_START_LOCATION\<close>, \<open>PASSENGERS_DESTINATIONS\<close> and \<open>PASSENGERS_STATUS\<close>.
  A coordinate is a pair \<open>(row, column)\<close>.
\<close>

type_synonym coord = "int \<times> int"

record taxi_env =
  desc :: "string list"
  num_taxis :: nat
  num_passengers :: nat
  taxis_locations :: "coord list"
  passengers_start_locations :: "coord list"
  passengers_destinations :: "coord list"
  passengers_status :: "int list"

text \<open>
  \<open>TaskAllocator\<close> and \<open>SocialTaxi\<close> both keep the environment in a field
  \<open>taxi_env\<close>; the two records extend one that holds it.
\<close>

record env_wrapper =
  taxi_env :: taxi_env

section \<open>TaskAllocator\<close>

text \<open>
  \<open>self.distances\<close> is the matrix \<open>distances_to_all_passengers\<close> stored at
  construction, a numpy array of \<open>int64\<close>: entry \<open>[taxi, passenger]\<close> is the taxi's
  total travel distance for that passenger. The sum of an allocation's entries is
  accumulated in \<open>int64\<close> scalars, so every addition wraps; an entry is an
  \<open>int64\<close> itself, an integer from \<open>- 2 ^ 63\<close> to \<open>2 ^ 63 - 1\<close>. The keys of an
  allocation dictionary are tuples of \<open>(taxi, passenger)\<close> pairs.
\<close>

record task_allocator = env_wrapper +
  distances :: "int list list"

type_synonym allocation = "(nat \<times> nat) list"

definition distances_at :: "int list list \<Rightarrow> nat \<times> nat \<Rightarrow> error + int" where
  "distances_at d taxi_passenger =
     (case taxi_passenger of (taxi_ind, passenger_ind) \<Rightarrow>
        if taxi_ind < length d \<and> passenger_ind < length (d ! taxi_ind)
        then Inr (d ! taxi_ind ! passenger_ind) else Inl IndexError)"

fun allocation_total_distance :: "int list list \<Rightarrow> allocation \<Rightarrow> int \<Rightarrow> error + int" where
  "allocation_total_distance d [] dist = Inr dist"
| "allocation_total_distance d (taxi_passenger # rest) dist =
     (case distances_at d taxi_passenger of
        Inl e \<Rightarrow> Inl e
      | Inr c \<Rightarrow> allocation_total_distance d rest (int64_wrap (dist + c)))"

fun allocations_total_distances ::
  "int list list \<Rightarrow> allocation list \<Rightarrow> (allocation, int) dict
    \<Rightarrow> error + (allocation, int) dict" where
  "allocations_total_distances d [] acc = Inr acc"
| "allocations_total_distances d (a # as) acc =
     (case allocation_total_distance d a 0 of
        Inl e \<Rightarrow> Inl e
      | Inr c \<Rightarrow> allocations_total_distances d as (dict_set a c acc))"

definition passengers_allocations_cost :: "task_allocator \<Rightarrow> error + (allocation, int) dict" where
  "passengers_allocations_cost self =
     (let passengers_permutations = permutations [0..<num_passengers (taxi_env self)];
          taxis_indices = [0..<num_taxis (taxi_env self)];
          allocations = map (\<lambda>passenger_perm. zip taxis_indices passenger_perm)
                            passengers_permutations
      in allocations_total_distances (distances self) allocations [])"

definition optimal_allocation_minimal_value ::
  "(allocation, int) dict \<Rightarrow> error + (nat, nat) dict" where
  "optimal_allocation_minimal_value allocations =
     (case py_min_by_value allocations of
        Inl e \<Rightarrow> Inl e
      | Inr optimal_allocation \<Rightarrow>
          Inr (fold (\<lambda>(taxi_ind, passenger_ind) acc. dict_set taxi_ind passenger_ind acc)
                 optimal_allocation []))"

text \<open>
  The optimal assignment is the composition the entry points call:
  \<open>optimal_allocation_minimal_value(passengers_allocations_cost())\<close>.
\<close>

definition optimal_assignment :: "task_allocator \<Rightarrow> error + (nat, nat) dict" where
  "optimal_assignment self =
     (case passengers_allocations_cost self of
        Inl e \<Rightarrow> Inl e
      | Inr allocations \<Rightarrow> optimal_allocation_minimal_value allocations)"

text \<open>
  The total summed cost of an allocation as a mathematical integer, the shape of the
  distance matrix, and a bound on its entries.
\<close>

definition total_cost :: "int list list \<Rightarrow> allocation \<Rightarrow> int" where
  "total_cost d a = sum_list (map (\<lambda>(t, p). d ! t ! p) a)"

definition well_shaped :: "task_allocator \<Rightarrow> bool" where
  "well_shaped self \<longleftrightarrow>
     length (distances self) = num_taxis (taxi_env self) \<and>
     list_all (\<lambda>row. length row = num_passengers (taxi_env self)) (distances self)"

definition entries_within :: "int \<Rightarrow> int list list \<Rightarrow> bool" where
  "entries_within B d \<longleftrightarrow> list_all (list_all (\<lambda>c. 0 \<le> c \<and> c \<le> B)) d"

subsection \<open>The auction\<close>

text \<open>
  \<open>biddings\<close> is a list of dictionaries, one per passenger, from taxi index to bid.
  The function pops entries from these dictionaries, which the caller still holds: the
  dictionaries live in a store, from reference to dictionary, and \<open>biddings\<close> is the
  list of their references (two positions may hold the same dictionary). The function
  returns the store it leaves with the allocation.
\<close>

type_synonym bids = "(nat, int) dict"

fun pop_allocated :: "nat list \<Rightarrow> bids \<Rightarrow> error + bids" where
  "pop_allocated [] bids_on_passenger = Inr bids_on_passenger"
| "pop_allocated (taxi_ind # rest) bids_on_passenger =
     (if taxi_ind \<in> set (map fst bids_on_passenger)
      then pop_allocated rest (filter (\<lambda>(k, v). k \<noteq> taxi_ind) bids_on_passenger)
      else Inl KeyError)"

fun auction_loop ::
  "nat list \<Rightarrow> nat \<Rightarrow> nat list \<Rightarrow> (nat \<Rightarrow> bids) \<times> (nat, nat) dict
    \<Rightarrow> error + ((nat \<Rightarrow> bids) \<times> (nat, nat) dict)" where
  "auction_loop biddings nt [] st = Inr st"
| "auction_loop biddings nt (passenger_ind # rest) (store, allocations) =
     (if length biddings \<le> passenger_ind then Inl IndexError
      else if length (store (biddings ! passenger_ind)) \<noteq> nt then Inl AssertionError
      else case pop_allocated (map fst allocations) (store (biddings ! passenger_ind)) of
             Inl e \<Rightarrow> Inl e
           | Inr bids_on_passenger \<Rightarrow>
               (case py_min_by_value bids_on_passenger of
                  Inl e \<Rightarrow> Inl e
                | Inr winning_taxi_ind \<Rightarrow>
                    auction_loop biddings nt rest
                      (store(biddings ! passenger_ind := bids_on_passenger),
                       dict_set winning_taxi_ind passenger_ind allocations)))"

definition taxis_auction_allocation ::
  "task_allocator \<Rightarrow> nat list \<Rightarrow> (nat \<Rightarrow> bids)
    \<Rightarrow> error + ((nat \<Rightarrow> bids) \<times> (nat, nat) dict)" where
  "taxis_auction_allocation self biddings store =
     (case auction_loop biddings (num_taxis (taxi_env self))
             [0..<num_passengers (taxi_env self)] (store, []) of
        Inl e \<Rightarrow> Inl e
      | Inr (store', allocations) \<Rightarrow>
          if length allocations \<noteq> num_passengers (taxi_env self) then Inl AssertionError
          else Inr (store', allocations))"

section \<open>EnvGraph\<close>

subsection \<open>The networkx graph and its shortest paths\<close>

text \<open>
  An undirected \<open>networkx.Graph\<close>: its nodes, in insertion order, and its edges.
  \<open>neighbors G u\<close> lists the nodes joined to \<open>u\<close> by an edge.
\<close>

record nx_graph =
  nodes :: "int list"
  edges :: "(int \<times> int) list"

definition neighbors :: "nx_graph \<Rightarrow> int \<Rightarrow> int list" where
  "neighbors G u =
     concat (map (\<lambda>(a, b). if a = u then [b] else if b = u then [a] else []) (edges G))"

text \<open>
  \<open>networkx.shortest_path(G, source, target)\<close> on an unweighted graph returns a path
  with the fewest edges from \<open>source\<close> to \<open>target\<close>, as the list of its nodes; it
  raises \<open>NodeNotFound\<close> when one of the two is not a node of \<open>G\<close> and
  \<open>NetworkXNoPath\<close> when no path joins them. Which of several shortest paths it
  returns is not part of its contract. It is modelled by a breadth-first search from
  the source: the search keeps the nodes seen so far and the current layer, each node
  of the layer with the nodes that lead to it, latest first. The search ends, since
  every layer holds a node of the graph not seen before.
\<close>

fun expand_layer :: "nx_graph \<Rightarrow> int list \<Rightarrow> (int \<times> int list) list \<Rightarrow> (int \<times> int list) list" where
  "expand_layer G seen [] = []"
| "expand_layer G seen ((u, trail) # frontier) =
     (let new = remdups (filter (\<lambda>v. v \<in> set (nodes G) \<and> v \<notin> set seen) (neighbors G u))
      in map (\<lambda>v. (v, u # trail)) new @ expand_layer G (seen @ new) frontier)"

lemma expand_layer_fresh:
  "(v, b) \<in> set (expand_layer G seen frontier) \<Longrightarrow> v \<in> set (nodes G) \<and> v \<notin> set seen"
proof (induction frontier arbitrary: seen)
  case Nil
  then show ?case by simp
next
  case (Cons ub frontier)
  obtain u trail where ub: "ub = (u, trail)" by (cases ub)
  define new where
    "new = remdups (filter (\<lambda>v. v \<in> set (nodes G) \<and> v \<notin> set seen) (neighbors G u))"
  from Cons.prems have "v \<in> set new \<or> (v, b) \<in> set (expand_layer G (seen @ new) frontier)"
    by (auto simp: ub new_def Let_def)
  then show ?case
  proof
    assume "v \<in> set new"
    then show ?thesis by (simp add: new_def)
  next
    assume "(v, b) \<in> set (expand_layer G (seen @ new) frontier)"
    from Cons.IH [OF this] show ?thesis by simp
  qed
qed

function bfs_paths :: "nx_graph \<Rightarrow> int \<Rightarrow> int list \<Rightarrow> (int \<times> int list) list \<Rightarrow> int list option" where
  "bfs_paths G target seen frontier =
     (case find (\<lambda>(u, trail). u = target) frontier of
        Some (u, trail) \<Rightarrow> Some (rev (u # trail))
      | None \<Rightarrow>
          (let next_layer = expand_layer G seen frontier
           in if next_layer = [] then None
              else bfs_paths G target (seen @ map fst next_layer) next_layer))"
  by pat_completeness auto
termination
proof (relation "measure (\<lambda>(G, target, seen, frontier). card (set (nodes G) - set seen))")
  show "wf (measure (\<lambda>(G, target, seen, frontier). card (set (nodes G) - set seen)))"
    by simp
next
  fix G :: nx_graph and target :: int and seen :: "int list"
    and frontier next_layer :: "(int \<times> int list) list"
  assume nl: "next_layer = expand_layer G seen frontier" and ne: "next_layer \<noteq> []"
  from ne obtain x others where "next_layer = x # others"
    by (cases next_layer) auto
  then have x: "x \<in> set next_layer" by simp
  obtain v b where "x = (v, b)" by (cases x)
  with x have vb: "(v, b) \<in> set next_layer" by simp
  with nl have fresh: "v \<in> set (nodes G)" "v \<notin> set seen"
    using expand_layer_fresh by blast+
  have "v \<in> set (map fst next_layer)" using vb by force
  then have "set (nodes G) - set (seen @ map fst next_layer) \<subset> set (nodes G) - set seen"
    using fresh by auto
  then have "card (set (nodes G) - set (seen @ map fst next_layer)) < card (set (nodes G) - set seen)"
    by (intro psubset_card_mono) simp_all
  then show "((G, target, seen @ map fst next_layer, next_layer), (G, target, seen, frontier))
       \<in> measure (\<lambda>(G, target, seen, frontier). card (set (nodes G) - set seen))"
    by simp
qed

declare bfs_paths.simps [simp del]

definition shortest_path :: "nx_graph \<Rightarrow> int \<Rightarrow> int \<Rightarrow> error + int list" where
  "shortest_path G source target =
     (if source \<in> set (nodes G) \<and> target \<in> set (nodes G)
      then (case bfs_paths G target [source] [(source, [])] of
              None \<Rightarrow> Inl NetworkXNoPath
            | Some path \<Rightarrow> Inr path)
      else Inl NodeNotFound)"

subsection \<open>The grid graph\<close>

text \<open>
  \<open>EnvGraph.__init__\<close> reads the map description: \<open>rows = len(desc) - 2\<close>,
  \<open>cols = len(desc[0]) // 2\<close>, one node per cell, and for every node an edge to the
  cell below unless the character below it is \<open>-\<close>, and an edge to the cell on its
  right if the character between them is \<open>:\<close>. The loop iterates the graph's node
  dictionary: an edge to a node that is not in the graph would add the node, and the
  iteration then raises \<open>RuntimeError\<close> (dictionary changed size during iteration).
\<close>

record env_graph =
  rows :: int
  cols :: int
  graph :: nx_graph

definition cors_to_node :: "env_graph \<Rightarrow> int \<Rightarrow> int \<Rightarrow> int" where
  "cors_to_node self row col = row * cols self + col"

definition node_to_cors :: "env_graph \<Rightarrow> int \<Rightarrow> error + coord" where
  "node_to_cors self node =
     (if cols self = 0 then Inl ZeroDivisionError
      else Inr (node div cols self, node mod cols self))"

definition desc_at :: "string list \<Rightarrow> int \<Rightarrow> int \<Rightarrow> error + char" where
  "desc_at map_desc r c = bind_result (py_index map_desc r) (\<lambda>line. py_index line c)"

fun add_edges ::
  "string list \<Rightarrow> int \<Rightarrow> int list \<Rightarrow> int list \<Rightarrow> (int \<times> int) list
    \<Rightarrow> error + (int \<times> int) list" where
  "add_edges map_desc ncols all_nodes [] es = Inr es"
| "add_edges map_desc ncols all_nodes (i # rest) es =
     (let row = i div ncols; col = i mod ncols;
          south_node = (row + 1) * ncols + col; east_node = row * ncols + (col + 1)
      in bind_result (desc_at map_desc (row + 2) (col * 2 + 1)) (\<lambda>south.
         bind_result (desc_at map_desc (row + 1) (col * 2 + 2)) (\<lambda>east.
           let es_south = (if south \<noteq> CHR ''-'' then es @ [(i, south_node)] else es);
               es_east = (if east = CHR '':'' then es_south @ [(i, east_node)] else es_south)
           in if list_all (\<lambda>(a, b). b \<in> set all_nodes) es_east
              then add_edges map_desc ncols all_nodes rest es_east
              else Inl RuntimeError)))"

definition EnvGraph_init :: "string list \<Rightarrow> error + env_graph" where
  "EnvGraph_init map_desc =
     bind_result (py_index map_desc 0) (\<lambda>first_line.
       let nrows = int (length map_desc) - 2;
           ncols = int (length first_line) div 2;
           all_nodes = map int [0..<nat (nrows * ncols)]
       in bind_result (add_edges map_desc ncols all_nodes all_nodes []) (\<lambda>es.
            Inr \<lparr>rows = nrows, cols = ncols, graph = \<lparr>nodes = all_nodes, edges = es\<rparr>\<rparr>))"

text \<open>
  \<open>get_path\<close>: the direction of each step of the path is decoded from the difference
  of the two node indices; \<open>0\<close> is south, \<open>1\<close> north, \<open>2\<close> east and \<open>3\<close> west.
\<close>

definition delta_action :: "int \<Rightarrow> int \<Rightarrow> nat" where
  "delta_action ncols delta =
     (if delta = - 1 then 3
      else if delta = 1 then 2
      else if delta = - ncols then 1
      else 0)"

fun direction_actions :: "int \<Rightarrow> int list \<Rightarrow> nat list" where
  "direction_actions ncols (a # b # rest) =
     delta_action ncols (b - a) # direction_actions ncols (b # rest)"
| "direction_actions ncols path = []"

fun nodes_to_cors :: "env_graph \<Rightarrow> int list \<Rightarrow> error + coord list" where
  "nodes_to_cors self [] = Inr []"
| "nodes_to_cors self (node # rest) =
     bind_result (node_to_cors self node) (\<lambda>c.
       bind_result (nodes_to_cors self rest) (\<lambda>cs. Inr (c # cs)))"

definition get_path :: "env_graph \<Rightarrow> coord \<Rightarrow> coord \<Rightarrow> error + (coord list \<times> nat list)" where
  "get_path self origin target =
     (let node_origin = cors_to_node self (fst origin) (snd origin);
          node_target = cors_to_node self (fst target) (snd target)
      in if node_origin = node_target then Inr ([], [])
         else bind_result (shortest_path (graph self) node_origin node_target) (\<lambda>path.
              bind_result (nodes_to_cors self path) (\<lambda>cord_path.
                Inr (tl cord_path, direction_actions (cols self) path))))"

definition get_path_length :: "env_graph \<Rightarrow> coord \<Rightarrow> coord \<Rightarrow> error + nat" where
  "get_path_length g a b = bind_result (get_path g a b) (\<lambda>p. Inr (length (fst p)))"

text \<open>
  The resulting distance of a detour candidate in the words of the spec: the distance
  from the drop-off coordinate to the candidate's destination, added to the distance
  from the pickup to the drop-off along the taxi's path. That second leg is measured
  here along a shortest route, the least that any path of the taxi from the pickup to
  the drop-off can make it.
\<close>

definition resulting_distance :: "env_graph \<Rightarrow> coord \<Rightarrow> coord \<Rightarrow> coord \<Rightarrow> error + nat" where
  "resulting_distance g pick_up drop_off destination =
     bind_result (get_path_length g drop_off destination) (\<lambda>after_drop_off.
     bind_result (get_path_length g pick_up drop_off) (\<lambda>ride.
       Inr (after_drop_off + ride)))"

section \<open>SocialTaxi\<close>

text \<open>
  The fields of \<open>SocialTaxi\<close> that the modelled methods read or write.
\<close>

record social_taxi = env_wrapper +
  taxi_index :: int
  passenger_index :: "int option"
  path_cords :: "coord list"
  path_actions :: "nat list"
  env_graph :: env_graph

definition SocialTaxi_init :: "taxi_env \<Rightarrow> int \<Rightarrow> int option \<Rightarrow> error + social_taxi" where
  "SocialTaxi_init env taxi_ind passenger_ind =
     bind_result (EnvGraph_init (desc env)) (\<lambda>g.
     bind_result (py_index (taxis_locations env) taxi_ind) (\<lambda>previous_coordinate.
       Inr \<lparr>taxi_env = env, taxi_index = taxi_ind, passenger_index = passenger_ind,
            path_cords = [], path_actions = [], env_graph = g\<rparr>))"

definition index_by :: "'a list \<Rightarrow> int option \<Rightarrow> error + 'a" where
  "index_by xs i = (case i of None \<Rightarrow> Inl TypeError | Some j \<Rightarrow> py_index xs j)"

definition get_taxi_location :: "social_taxi \<Rightarrow> error + coord" where
  "get_taxi_location self = py_index (taxis_locations (taxi_env self)) (taxi_index self)"

definition compute_shortest_path :: "social_taxi \<Rightarrow> coord option \<Rightarrow> error + social_taxi" where
  "compute_shortest_path self dest =
     bind_result (py_index (taxis_locations (taxi_env self)) (taxi_index self))
       (\<lambda>current_location.
          let go = (\<lambda>d. bind_result (get_path (env_graph self) current_location d)
                      (\<lambda>(cord_path, actions).
                         Inr (self\<lparr>path_cords := cord_path, path_actions := actions\<rparr>)))
          in case dest of
               Some d \<Rightarrow> go d
             | None \<Rightarrow>
                 (case passenger_index self of
                    None \<Rightarrow> Inr (self\<lparr>path_cords := [], path_actions := []\<rparr>)
                  | Some i \<Rightarrow>
                      if i = 0 then Inr (self\<lparr>path_cords := [], path_actions := []\<rparr>)
                      else bind_result
                             (py_index (passengers_destinations (taxi_env self)) i) go))"

definition compute_optimal_path :: "social_taxi \<Rightarrow> error + (coord list \<times> nat list)" where
  "compute_optimal_path self =
     bind_result (get_taxi_location self) (\<lambda>current_location.
     bind_result (index_by (passengers_start_locations (taxi_env self)) (passenger_index self))
       (\<lambda>passenger_start_location.
     bind_result (index_by (passengers_destinations (taxi_env self)) (passenger_index self))
       (\<lambda>passenger_destination.
     bind_result (get_path (env_graph self) current_location passenger_start_location)
       (\<lambda>(optimal_path_cor_to_passenger, optimal_actions_to_passenger).
     bind_result (get_path (env_graph self) passenger_start_location passenger_destination)
       (\<lambda>(optimal_path_cor_to_destination, optimal_actions_to_destination).
          Inr (optimal_path_cor_to_passenger @ optimal_path_cor_to_destination,
               optimal_actions_to_passenger @ optimal_actions_to_destination))))))"

fun drop_off_loop ::
  "env_graph \<Rightarrow> coord \<Rightarrow> coord list \<Rightarrow> coord \<times> nat \<Rightarrow> error + (coord \<times> nat)" where
  "drop_off_loop g passenger_destination [] best = Inr best"
| "drop_off_loop g passenger_destination (cor # rest) best =
     (case get_path g cor passenger_destination of
        Inl e \<Rightarrow> Inl e
      | Inr path \<Rightarrow>
          drop_off_loop g passenger_destination rest
            (if length (fst path) \<le> snd best then (cor, length (fst path)) else best))"

definition get_optimal_socail_drop_off :: "social_taxi \<Rightarrow> int \<Rightarrow> error + (coord \<times> nat)" where
  "get_optimal_socail_drop_off self other_passengers_index =
     bind_result (py_index (passengers_destinations (taxi_env self)) other_passengers_index)
       (\<lambda>passenger_destination.
     bind_result (compute_optimal_path self) (\<lambda>(optimal_path_cor, optimal_path_actions).
     bind_result (py_index optimal_path_cor (- 1)) (\<lambda>last_cor.
     bind_result (get_path (env_graph self) last_cor passenger_destination) (\<lambda>(cs, acts).
       drop_off_loop (env_graph self) passenger_destination optimal_path_cor
         (last_cor, length cs)))))"

datatype ('s, 'r) loop_step = Continue 's | Break 's | Return 'r

definition close_passengers_body ::
  "social_taxi \<Rightarrow> coord \<Rightarrow> int \<Rightarrow> nat \<Rightarrow> int option \<times> coord option \<times> coord option
    \<Rightarrow> error + (int option \<times> coord option \<times> coord option,
                 coord option \<times> coord option \<times> int option) loop_step" where
  "close_passengers_body self current_cor threshold other_passenger_index vars =
     (case vars of (social_passenger_index, drop_off_cor, pick_up_cor) \<Rightarrow>
      if Some (int other_passenger_index) = passenger_index self
      then Inr (Continue vars)
      else bind_result
             (py_index (passengers_status (taxi_env self)) (int other_passenger_index))
        (\<lambda>status.
          if status = 2 then
            bind_result (py_index (passengers_start_locations (taxi_env self))
                           (int other_passenger_index)) (\<lambda>social_passenger_location.
            bind_result (py_index (passengers_destinations (taxi_env self))
                           (int other_passenger_index)) (\<lambda>social_passenger_destination.
            bind_result (get_path (env_graph self) current_cor social_passenger_location)
              (\<lambda>path_to_social.
            bind_result (get_path (env_graph self) social_passenger_location
                           social_passenger_destination) (\<lambda>direct_path.
              if int (length (snd path_to_social)) \<le> threshold then
                bind_result (get_optimal_socail_drop_off self (int other_passenger_index))
                  (\<lambda>best.
                     if length (fst direct_path) \<le> snd best
                     then Inr (Return (None, None, None))
                     else Inr (Break (Some (int other_passenger_index), Some (fst best),
                                      Some social_passenger_location)))
              else Inr (Continue (Some (int other_passenger_index), drop_off_cor,
                                  pick_up_cor))))))
          else Inr (Continue vars)))"

fun close_passengers_loop ::
  "social_taxi \<Rightarrow> coord \<Rightarrow> int \<Rightarrow> nat list \<Rightarrow> int option \<times> coord option \<times> coord option
    \<Rightarrow> error + (coord option \<times> coord option \<times> int option)" where
  "close_passengers_loop self current_cor threshold [] vars =
     (case vars of (social_passenger_index, drop_off_cor, pick_up_cor) \<Rightarrow>
        Inr (pick_up_cor, drop_off_cor, social_passenger_index))"
| "close_passengers_loop self current_cor threshold (other_passenger_index # rest) vars =
     (case close_passengers_body self current_cor threshold other_passenger_index vars of
        Inl e \<Rightarrow> Inl e
      | Inr (Continue vars') \<Rightarrow> close_passengers_loop self current_cor threshold rest vars'
      | Inr (Break (social_passenger_index, drop_off_cor, pick_up_cor)) \<Rightarrow>
          Inr (pick_up_cor, drop_off_cor, social_passenger_index)
      | Inr (Return r) \<Rightarrow> Inr r)"

definition get_close_passengers ::
  "social_taxi \<Rightarrow> coord \<Rightarrow> int \<Rightarrow> error + (coord option \<times> coord option \<times> int option)" where
  "get_close_passengers self current_cor threshold =
     close_passengers_loop self current_cor threshold
       [0..<num_passengers (taxi_env self)] (None, None, None)"

section \<open>Concrete inputs\<close>

text \<open>
  Allocators over given distance matrices. The assignment functions read only the two
  counts of the environment and the matrix.
\<close>

definition counts_env :: "nat \<Rightarrow> nat \<Rightarrow> taxi_env" where
  "counts_env nt np =
     \<lparr>desc = [], num_taxis = nt, num_passengers = np, taxis_locations = [],
      passengers_start_locations = [], passengers_destinations = [], passengers_status = []\<rparr>"

definition example_allocator_2x2 :: task_allocator where
  "example_allocator_2x2 = \<lparr>taxi_env = counts_env 2 2, distances = [[4, 1], [2, 3]]\<rparr>"

definition example_allocator_1x2 :: task_allocator where
  "example_allocator_1x2 = \<lparr>taxi_env = counts_env 1 2, distances = [[5, 3]]\<rparr>"

definition example_allocator_wrapping :: task_allocator where
  "example_allocator_wrapping =
     \<lparr>taxi_env = counts_env 2 2, distances = [[2 ^ 62, 0], [0, 2 ^ 62]]\<rparr>"

definition tied_bids_store :: "nat \<Rightarrow> bids" where
  "tied_bids_store = (\<lambda>_. [])(0 := [(1, 3), (0, 3)], 1 := [(1, 4), (0, 4)])"

definition ordered_bids_store :: "nat \<Rightarrow> bids" where
  "ordered_bids_store = (\<lambda>_. [])(0 := [(0, 3), (1, 3)], 1 := [(0, 4), (1, 4)])"

definition auction_allocator :: task_allocator where
  "auction_allocator = \<lparr>taxi_env = counts_env 2 2, distances = []\<rparr>"

definition single_column_desc :: "string list" where
  "single_column_desc = [''+-+'', ''| |'', ''| |'', ''+-+'']"

definition corridor_desc :: "string list" where
  "corridor_desc = [''+-------+'', ''| : : : |'', ''+-------+'']"

definition open_2x3_desc :: "string list" where
  "open_2x3_desc = [''+-----+'', ''| : : |'', ''| : : |'', ''+-----+'']"

definition corridor_env :: "coord \<Rightarrow> coord \<Rightarrow> taxi_env" where
  "corridor_env social_start social_dest =
     \<lparr>desc = corridor_desc, num_taxis = 1, num_passengers = 2,
      taxis_locations = [(0, 0)],
      passengers_start_locations = [(0, 2), social_start],
      passengers_destinations = [(0, 3), social_dest],
      passengers_status = [2, 2]\<rparr>"

definition open_2x3_env :: taxi_env where
  "open_2x3_env =
     \<lparr>desc = open_2x3_desc, num_taxis = 1, num_passengers = 2,
      taxis_locations = [(0, 0)],
      passengers_start_locations = [(0, 2), (1, 0)],
      passengers_destinations = [(1, 2), (1, 1)],
      passengers_status = [2, 2]\<rparr>"

text \<open>
  The graphs that \<open>EnvGraph.__init__\<close> builds from the three map descriptions, and a
  graph with an edge that joins cells two columns and one row apart, which no map
  description yields.
\<close>

definition single_column_graph :: env_graph where
  "single_column_graph = \<lparr>rows = 2, cols = 1, graph = \<lparr>nodes = [0, 1], edges = [(0, 1)]\<rparr>\<rparr>"

definition corridor_graph :: env_graph where
  "corridor_graph =
     \<lparr>rows = 1, cols = 4, graph = \<lparr>nodes = [0, 1, 2, 3], edges = [(0, 1), (1, 2), (2, 3)]\<rparr>\<rparr>"

definition open_2x3_graph :: env_graph where
  "open_2x3_graph =
     \<lparr>rows = 2, cols = 3,
      graph = \<lparr>nodes = [0, 1, 2, 3, 4, 5],
                edges = [(0, 3), (0, 1), (1, 4), (1, 2), (2, 5), (3, 4), (4, 5)]\<rparr>\<rparr>"


text \<open>
  Taxi 0 with passenger 0 on the corridor and on the open grid, as
  \<open>SocialTaxi(env, 0, 0)\<close> constructs them.
\<close>

definition corridor_taxi :: "coord \<Rightarrow> coord \<Rightarrow> social_taxi" where
  "corridor_taxi social_start social_dest =
     \<lparr>taxi_env = corridor_env social_start social_dest, taxi_index = 0,
      passenger_index = Some 0, path_cords = [], path_actions = [],
      env_graph = corridor_graph\<rparr>"

definition open_2x3_taxi :: social_taxi where
  "open_2x3_taxi =
     \<lparr>taxi_env = open_2x3_env, taxi_index = 0, passenger_index = Some 0,
      path_cords = [], path_actions = [], env_graph = open_2x3_graph\<rparr>"

section \<open>Properties of the Python model\<close>

lemma dict_set_fresh: "k \<notin> fst ` set d \<Longrightarrow> dict_set k v d = d @ [(k, v)]"
  by (induction d) auto

lemma min_first_position:
  "\<exists>pre post. b # xs = pre @ min_first key b xs # post
     \<and> (\<forall>x\<in>set pre. key (min_first key b xs) < key x)
     \<and> (\<forall>x\<in>set post. key (min_first key b xs) \<le> key x)"
proof (induction xs arbitrary: b)
  case Nil
  show ?case by (rule exI [of _ "[]"], rule exI [of _ "[]"]) simp
next
  case (Cons x xs)
  define c where "c = (if key x < key b then x else b)"
  define r where "r = min_first key c xs"
  have step: "min_first key b (x # xs) = r"
    by (simp add: r_def c_def)
  from Cons.IH [of c] obtain pre post where
    split: "c # xs = pre @ r # post"
    and pre: "\<forall>y\<in>set pre. key r < key y"
    and post: "\<forall>y\<in>set post. key r \<le> key y"
    unfolding r_def by blast
  have r_le: "key r \<le> key c"
  proof (cases pre)
    case Nil
    with split show ?thesis by simp
  next
    case (Cons p pre')
    with split have "c \<in> set pre" by simp
    with pre show ?thesis by (simp add: less_imp_le)
  qed
  show ?case
  proof (cases "key x < key b")
    case True
    then have cx: "c = x" by (simp add: c_def)
    have "b # x # xs = (b # pre) @ r # post" using split cx by simp
    moreover have "\<forall>y\<in>set (b # pre). key r < key y"
      using pre r_le True cx by auto
    ultimately show ?thesis
      unfolding step using post by blast
  next
    case False
    then have cb: "c = b" by (simp add: c_def)
    show ?thesis
    proof (cases pre)
      case Nil
      with split cb have rb: "r = b" and xs: "xs = post" by simp_all
      have "b # x # xs = [] @ r # (x # post)" using rb xs by simp
      moreover have "\<forall>y\<in>set (x # post). key r \<le> key y"
        using post False rb by auto
      moreover have "\<forall>y\<in>set []. key r < key y" by simp
      ultimately show ?thesis
        unfolding step by blast
    next
      case (Cons p pre')
      with split cb have pb: "p = b" and xs: "xs = pre' @ r # post" by simp_all
      have "b # x # xs = (b # x # pre') @ r # post" using xs by simp
      moreover have "\<forall>y\<in>set (b # x # pre'). key r < key y"
        using pre Cons pb False by auto
      ultimately show ?thesis
        unfolding step using post by blast
    qed
  qed
qed

subsection \<open>Permutations\<close>

lemma selections_mset:
  "(y, ys) \<in> set (selections xs) \<Longrightarrow> mset xs = add_mset y (mset ys)"
  by (induction xs arbitrary: y ys) auto

lemma selections_complete:
  "y \<in> set xs \<Longrightarrow> \<exists>ys. (y, ys) \<in> set (selections xs)"
proof (induction xs)
  case Nil
  then show ?case by simp
next
  case (Cons x xs)
  show ?case
  proof (cases "y = x")
    case True
    then show ?thesis by auto
  next
    case False
    with Cons.prems have "y \<in> set xs" by simp
    then obtain ys where "(y, ys) \<in> set (selections xs)"
      using Cons.IH by blast
    then have "(y, x # ys) \<in> set (selections (x # xs))"
      by force
    then show ?thesis by blast
  qed
qed

lemma permutations_sound:
  "ys \<in> set (permutations xs) \<Longrightarrow> mset ys = mset xs"
proof (induction xs arbitrary: ys rule: permutations.induct)
  case 1
  then show ?case by simp
next
  case (2 x xs)
  from "2.prems"
  have "ys \<in> set (concat (map (\<lambda>(y, ys). map ((#) y) (permutations ys)) (selections (x # xs))))"
    by (simp only: permutations.simps)
  then obtain b where b: "b \<in> set (selections (x # xs))"
    and yb: "ys \<in> set ((\<lambda>(y, ys). map ((#) y) (permutations ys)) b)"
    unfolding set_concat set_map by blast
  obtain z zs where bz: "b = (z, zs)" by (cases b)
  from b bz have sel: "(z, zs) \<in> set (selections (x # xs))" by simp
  from yb bz have "ys \<in> (#) z ` set (permutations zs)"
    by (simp only: case_prod_conv set_map)
  then obtain ws where ws: "ws \<in> set (permutations zs)" and ys: "ys = z # ws"
    by blast
  from "2.IH" [OF sel refl ws] have "mset ws = mset zs" .
  with selections_mset [OF sel] ys show ?case by simp
qed

lemma permutations_complete:
  "mset ys = mset xs \<Longrightarrow> ys \<in> set (permutations xs)"
proof (induction xs arbitrary: ys rule: permutations.induct)
  case 1
  then show ?case by simp
next
  case (2 x xs)
  from "2.prems" have "ys \<noteq> []" by auto
  then obtain z ws where ys: "ys = z # ws" by (cases ys) auto
  have "z \<in># mset (x # xs)" using "2.prems" ys by (metis list.set_intros(1) set_mset_mset)
  then have "z \<in> set (x # xs)" by simp
  from selections_complete [OF this]
  obtain zs where sel: "(z, zs) \<in> set (selections (x # xs))" ..
  have "add_mset z (mset ws) = mset ys" unfolding ys by simp
  also have "\<dots> = mset (x # xs)" by (rule "2.prems")
  also have "\<dots> = add_mset z (mset zs)" by (rule selections_mset [OF sel])
  finally have "mset ws = mset zs" by (simp only: add_mset_add_mset_same_iff)
  from "2.IH" [OF sel refl this] have ws: "ws \<in> set (permutations zs)" .
  have "ys \<in> set (map ((#) z) (permutations zs))"
    using ws ys by simp
  moreover have "map ((#) z) (permutations zs)
      \<in> set (map (\<lambda>(y, ys). map ((#) y) (permutations ys)) (selections (x # xs)))"
    using sel by (metis (mono_tags, lifting) case_prod_conv image_eqI list.set_map)
  ultimately have "ys \<in> set (concat (map (\<lambda>(y, ys). map ((#) y) (permutations ys)) (selections (x # xs))))"
    unfolding set_concat by blast
  then show ?case by (simp only: permutations.simps)
qed

lemma set_permutations: "set (permutations xs) = {ys. mset ys = mset xs}"
  using permutations_sound permutations_complete by blast

lemma sorted_wrt_concat:
  "sorted_wrt P (concat xss) \<longleftrightarrow>
     (\<forall>xs\<in>set xss. sorted_wrt P xs) \<and>
     sorted_wrt (\<lambda>xs ys. \<forall>x\<in>set xs. \<forall>y\<in>set ys. P x y) xss"
proof (induction xss)
  case Nil
  then show ?case by simp
next
  case (Cons xs xss)
  show ?case
    unfolding concat.simps sorted_wrt_append sorted_wrt.simps Cons.IH
    by auto
qed

lemma selections_fst: "map fst (selections xs) = xs"
  by (induction xs) (auto simp: case_prod_unfold comp_def)

lemma selections_set:
  assumes "(y, ys) \<in> set (selections xs)"
  shows "set xs = insert y (set ys)"
proof -
  have "set_mset (mset xs) = set_mset (add_mset y (mset ys))"
    by (simp only: selections_mset [OF assms])
  then show ?thesis by simp
qed

lemma selections_sorted:
  "sorted_wrt (<) xs \<Longrightarrow> (y, ys) \<in> set (selections xs) \<Longrightarrow> sorted_wrt (<) ys"
proof (induction xs arbitrary: y ys)
  case Nil
  then show ?case by simp
next
  case (Cons x xs)
  from Cons.prems(2) consider "y = x" "ys = xs"
    | zs where "(y, zs) \<in> set (selections xs)" "ys = x # zs"
    by auto
  then show ?case
  proof cases
    case 1
    with Cons.prems(1) show ?thesis by simp
  next
    case 2
    from Cons.prems(1) have "sorted_wrt (<) xs" by simp
    from Cons.IH [OF this 2(1)] have "sorted_wrt (<) zs" .
    moreover have "\<forall>z\<in>set zs. x < z"
      using Cons.prems(1) selections_set [OF 2(1)] by simp
    ultimately show ?thesis using 2(2) by simp
  qed
qed

lemma permutations_sorted:
  "sorted_wrt (<) (xs :: 'a::linorder list) \<Longrightarrow> sorted_wrt (<) (permutations xs)"
proof (induction xs rule: permutations.induct)
  case 1
  then show ?case by simp
next
  case (2 x xs)
  let ?S = "selections (x # xs)"
  let ?F = "\<lambda>(y, ys). map ((#) y) (permutations ys)"
  have blocks: "\<forall>b\<in>set (map ?F ?S). sorted_wrt (<) b"
  proof
    fix b assume "b \<in> set (map ?F ?S)"
    then obtain y ys where sel: "(y, ys) \<in> set ?S" and b: "b = map ((#) y) (permutations ys)"
      by (auto simp del: selections.simps)
    have "sorted_wrt (<) ys" using selections_sorted [OF "2.prems" sel] .
    from "2.IH" [OF sel refl this] have "sorted_wrt (<) (permutations ys)" .
    then show "sorted_wrt (<) b"
      unfolding b sorted_wrt_map by simp
  qed
  have fst_sorted: "sorted_wrt (<) (map fst ?S)"
    using "2.prems" by (simp only: selections_fst)
  have between: "sorted_wrt (\<lambda>b c. \<forall>p\<in>set b. \<forall>q\<in>set c. p < q) (map ?F ?S)"
    unfolding sorted_wrt_map
  proof (rule sorted_wrt_mono_rel [OF _ fst_sorted [unfolded sorted_wrt_map]])
    fix s t assume "s \<in> set ?S" "t \<in> set ?S" "fst s < fst t"
    then show "\<forall>p\<in>set (?F s). \<forall>q\<in>set (?F t). p < q"
      by (cases s; cases t) auto
  qed
  show ?case
    unfolding permutations.simps(2) sorted_wrt_concat
    using blocks between by blast
qed

lemma selections_len: "length (selections xs) = length xs"
  by (induction xs) auto

lemma selections_len_snd:
  "(y, ys) \<in> set (selections xs) \<Longrightarrow> Suc (length ys) = length xs"
  using selections_mset [of y ys xs, THEN arg_cong, of size] by simp

lemma sum_list_const_on:
  "\<forall>x\<in>set xs. f x = (c::nat) \<Longrightarrow> sum_list (map f xs) = length xs * c"
  by (induction xs) auto

lemma permutations_length:
  "length (permutations xs) = fact (length xs)"
proof (induction xs rule: permutations.induct)
  case 1
  then show ?case by simp
next
  case (2 x xs)
  let ?S = "selections (x # xs)"
  have "\<forall>s\<in>set ?S. length ((\<lambda>(y, ys). map ((#) y) (permutations ys)) s) = fact (length xs)"
  proof
    fix s assume s: "s \<in> set ?S"
    obtain y ys where sy: "s = (y, ys)" by (cases s)
    with s have sel: "(y, ys) \<in> set ?S" by simp
    from selections_len_snd [OF sel] have "length ys = length xs" by simp
    with "2.IH" [OF sel refl] show "length ((\<lambda>(y, ys). map ((#) y) (permutations ys)) s) = fact (length xs)"
      unfolding sy by simp
  qed
  then have "sum_list (map (\<lambda>s. length ((\<lambda>(y, ys). map ((#) y) (permutations ys)) s)) ?S)
      = length ?S * fact (length xs)"
    by (rule sum_list_const_on)
  then have "length (permutations (x # xs)) = length ?S * fact (length xs)"
    unfolding permutations.simps(2) length_concat map_map comp_def .
  then show ?case
    by (simp only: selections_len fact_Suc length_Cons of_nat_id)
qed

section \<open>The optimal assignment\<close>

lemma int64_wrap_id: "- (2 ^ 63) \<le> x \<Longrightarrow> x < 2 ^ 63 \<Longrightarrow> int64_wrap x = x"
  by (simp add: int64_wrap_def)

lemma allocation_total_distance_returns:
  "\<forall>(t, p)\<in>set a. t < length d \<and> p < length (d ! t) \<Longrightarrow>
     \<exists>c. allocation_total_distance d a acc = Inr c"
  by (induction a arbitrary: acc) (auto simp: distances_at_def)

lemma entries_withinD:
  "entries_within B d \<Longrightarrow> t < length d \<Longrightarrow> p < length (d ! t) \<Longrightarrow>
     0 \<le> d ! t ! p \<and> d ! t ! p \<le> B"
  by (simp add: entries_within_def list_all_length)

lemma allocation_total_distance_ok:
  assumes "\<forall>(t, p)\<in>set a. t < length d \<and> p < length (d ! t)"
    and "entries_within B d" and "0 \<le> acc" and "acc + int (length a) * B < 2 ^ 63"
  shows "allocation_total_distance d a acc = Inr (acc + total_cost d a)"
  using assms
proof (induction a arbitrary: acc)
  case Nil
  then show ?case by (simp add: total_cost_def)
next
  case (Cons tp a)
  obtain t p where tp: "tp = (t, p)" by (cases tp)
  from Cons.prems(1) tp have range: "t < length d" "p < length (d ! t)" by simp_all
  define c where "c = d ! t ! p"
  from entries_withinD [OF Cons.prems(2) range] have c: "0 \<le> c" "c \<le> B"
    by (simp_all add: c_def)
  have B: "0 \<le> B" using c by simp
  have step: "acc + c + int (length a) * B \<le> acc + int (length (tp # a)) * B"
    using c by (simp add: algebra_simps)
  have "0 \<le> int (length a) * B" using B by simp
  then have "acc + c < 2 ^ 63"
    using step Cons.prems(4) by linarith
  moreover have "- (2 ^ 63) \<le> acc + c" using Cons.prems(3) c by simp
  ultimately have wrap: "int64_wrap (acc + c) = acc + c" by (simp add: int64_wrap_id)
  have "allocation_total_distance d a (acc + c) = Inr (acc + c + total_cost d a)"
  proof (rule Cons.IH)
    show "\<forall>(t, p)\<in>set a. t < length d \<and> p < length (d ! t)"
      using Cons.prems(1) by simp
    show "entries_within B d" by (rule Cons.prems(2))
    show "0 \<le> acc + c" using Cons.prems(3) c by simp
    show "acc + c + int (length a) * B < 2 ^ 63"
      using step Cons.prems(4) by linarith
  qed
  then have "allocation_total_distance d a (int64_wrap (acc + c)) = Inr (acc + c + total_cost d a)"
    by (simp only: wrap)
  then have "allocation_total_distance d a (int64_wrap (acc + c)) = Inr (acc + total_cost d (tp # a))"
    by (simp add: tp c_def total_cost_def)
  then show ?case
    using range by (simp add: tp distances_at_def c_def)
qed

lemma allocations_total_distances_ok:
  assumes "\<forall>a\<in>set as. allocation_total_distance d a 0 = Inr (total_cost d a)"
    and "distinct as" and "set as \<inter> fst ` set acc = {}"
  shows "allocations_total_distances d as acc = Inr (acc @ map (\<lambda>a. (a, total_cost d a)) as)"
  using assms
proof (induction as arbitrary: acc)
  case Nil
  then show ?case by simp
next
  case (Cons a as)
  have tot: "allocation_total_distance d a 0 = Inr (total_cost d a)"
    using Cons.prems(1) by simp
  have fresh: "a \<notin> fst ` set acc" using Cons.prems(3) by auto
  have "set as \<inter> fst ` set (acc @ [(a, total_cost d a)]) = {}"
    using Cons.prems(2,3) by auto
  from Cons.IH [OF _ _ this] Cons.prems(1,2)
  have "allocations_total_distances d as (acc @ [(a, total_cost d a)])
      = Inr ((acc @ [(a, total_cost d a)]) @ map (\<lambda>a. (a, total_cost d a)) as)"
    by simp
  then show ?case
    by (simp add: tot dict_set_fresh [OF fresh])
qed

lemma fold_dict_set_distinct:
  "distinct (map fst a) \<Longrightarrow> fst ` set a \<inter> fst ` set acc = {} \<Longrightarrow>
     fold (\<lambda>(k, v) acc. dict_set k v acc) a acc = acc @ a"
proof (induction a arbitrary: acc)
  case Nil
  then show ?case by simp
next
  case (Cons kv a)
  obtain k v where kv: "kv = (k, v)" by (cases kv)
  have fresh: "k \<notin> fst ` set acc" using Cons.prems(2) kv by auto
  have "fst ` set a \<inter> fst ` set (acc @ [(k, v)]) = {}"
    using Cons.prems kv by auto
  from Cons.IH [OF _ this] Cons.prems(1)
  have "fold (\<lambda>(k, v) acc. dict_set k v acc) a (acc @ [(k, v)]) = (acc @ [(k, v)]) @ a"
    by simp
  then show ?case by (simp add: kv dict_set_fresh [OF fresh])
qed

lemma permutations_upt_props:
  assumes "q \<in> set (permutations [0..<n])"
  shows "length q = n" and "set q = {0..<n}" and "distinct q"
proof -
  have m: "mset q = mset [0..<n]" using assms by (simp add: set_permutations)
  from m show "length q = n" by (metis length_upt mset_eq_length minus_nat.diff_0)
  from m show "set q = {0..<n}" by (metis mset_eq_setD set_upt)
  from m show "distinct q" by (metis distinct_upt mset_eq_imp_distinct_iff)
qed

lemma zip_upt_inj:
  "length p = n \<Longrightarrow> length q = n \<Longrightarrow> zip [0..<n] p = zip [0..<n] q \<Longrightarrow> p = q"
  by (metis length_upt map_snd_zip minus_nat.diff_0)

lemma dict_set_keys: "fst ` set (dict_set k v d) = insert k (fst ` set d)"
proof (induction d)
  case Nil
  then show ?case by simp
next
  case (Cons kv d)
  obtain k' v' where kv: "kv = (k', v')" by (cases kv)
  show ?case
  proof (cases "k' = k")
    case True
    then show ?thesis by (simp add: kv)
  next
    case False
    then show ?thesis using Cons.IH by (simp add: kv insert_commute)
  qed
qed

lemma allocations_total_distances_keys:
  assumes "\<forall>a\<in>set as. \<forall>(t, p)\<in>set a. t < length d \<and> p < length (d ! t)"
  shows "\<exists>r. allocations_total_distances d as acc = Inr r
           \<and> fst ` set r = set as \<union> fst ` set acc"
  using assms
proof (induction as arbitrary: acc)
  case Nil
  then show ?case by simp
next
  case (Cons a as)
  from allocation_total_distance_returns [of a d 0] Cons.prems
  obtain c where tot: "allocation_total_distance d a 0 = Inr c"
    by auto
  from Cons.IH [of "dict_set a c acc"] Cons.prems
  obtain r where "allocations_total_distances d as (dict_set a c acc) = Inr r"
    and "fst ` set r = set as \<union> fst ` set (dict_set a c acc)"
    by auto
  then show ?case
    by (auto simp: tot dict_set_keys)
qed

lemma py_min_by_value_member:
  "d \<noteq> [] \<Longrightarrow> \<exists>k. py_min_by_value d = Inr k \<and> k \<in> fst ` set d"
proof (cases d)
  case Nil
  assume "d \<noteq> []"
  with Nil show ?thesis by simp
next
  case (Cons kv rest)
  from min_first_position [of kv rest snd]
  have "min_first snd kv rest \<in> set (kv # rest)"
    by (metis in_set_conv_decomp)
  then show ?thesis
    by (auto simp: py_min_by_value_def Cons)
qed

text \<open>
  Claim C1. With \<open>n\<close> taxis, \<open>n\<close> passengers and an \<open>n \<times> n\<close> matrix of distances
  between \<open>0\<close> and a bound \<open>B\<close> with \<open>n * B < 2 ^ 63\<close> (so that no sum of \<open>n\<close>
  entries leaves the \<open>int64\<close> range), the optimal assignment returns the allocation
  \<open>zip [0..<n] p\<close> of a permutation \<open>p\<close> of the passenger indices, a bijection from
  taxi indices to passenger indices; its total cost is the least over all permutations
  of the passengers matched against the taxis in index order; and \<open>p\<close> is
  lexicographically first among the permutations of that least cost.
\<close>

theorem C1_optimal_assignment:
  assumes nt: "num_taxis (taxi_env self) = n" and np: "num_passengers (taxi_env self) = n"
    and shape: "well_shaped self"
    and bound: "entries_within B (distances self)" "int n * B < 2 ^ 63"
  shows "\<exists>p. optimal_assignment self = Inr (zip [0..<n] p)
           \<and> mset p = mset [0..<n]
           \<and> bij_betw ((!) p) {..<n} {..<n}
           \<and> (\<forall>q. mset q = mset [0..<n] \<longrightarrow>
                  total_cost (distances self) (zip [0..<n] p)
                    \<le> total_cost (distances self) (zip [0..<n] q)
                  \<and> (total_cost (distances self) (zip [0..<n] q)
                        = total_cost (distances self) (zip [0..<n] p) \<longrightarrow> p \<le> q))"
proof -
  define d where "d = distances self"
  define perms where "perms = permutations [0..<n]"
  define f where "f = (\<lambda>q. (zip [0..<n] q, total_cost d (zip [0..<n] q)))"
  define allocs where "allocs = map (\<lambda>q. zip [0..<n] q) perms"
  have len_d: "length d = n" and rows: "\<forall>row\<in>set d. length row = n"
    using shape nt np by (simp_all add: well_shaped_def d_def list_all_iff)
  have in_range: "\<forall>a\<in>set allocs. \<forall>(t, p)\<in>set a. t < length d \<and> p < length (d ! t)"
  proof (intro ballI)
    fix a tp assume a: "a \<in> set allocs" and tp: "tp \<in> set a"
    from a obtain q where q: "q \<in> set perms" and aq: "a = zip [0..<n] q"
      by (auto simp: allocs_def)
    obtain t p where tpe: "tp = (t, p)" by (cases tp)
    from tp aq tpe have "t \<in> set [0..<n]" and "p \<in> set q"
      by (auto dest: set_zip_leftD set_zip_rightD)
    then have "t < n" and "p < n"
      using permutations_upt_props(2) [OF q [unfolded perms_def]] by auto
    then have "t < length d \<and> p < length (d ! t)"
      using len_d rows by simp
    then show "case tp of (t, p) \<Rightarrow> t < length d \<and> p < length (d ! t)"
      by (simp add: tpe)
  qed
  have sorted_perms: "sorted_wrt (<) perms"
    unfolding perms_def by (rule permutations_sorted) (simp add: sorted_wrt_upt)
  then have dist_perms: "distinct perms"
    by (simp add: strict_sorted_iff)
  have dist_allocs: "distinct allocs"
    unfolding allocs_def distinct_map
  proof
    show "distinct perms" by (rule dist_perms)
    show "inj_on (zip [0..<n]) (set perms)"
    proof (rule inj_onI)
      fix p q assume p: "p \<in> set perms" and q: "q \<in> set perms"
        and eq: "zip [0..<n] p = zip [0..<n] q"
      have "length p = n" by (rule permutations_upt_props(1) [OF p [unfolded perms_def]])
      moreover have "length q = n" by (rule permutations_upt_props(1) [OF q [unfolded perms_def]])
      ultimately show "p = q" using eq by (rule zip_upt_inj)
    qed
  qed
  have costs: "passengers_allocations_cost self = Inr (map f perms)"
  proof -
    have "\<forall>a\<in>set allocs. allocation_total_distance d a 0 = Inr (total_cost d a)"
    proof
      fix a assume a: "a \<in> set allocs"
      then obtain q where q: "q \<in> set perms" and aq: "a = zip [0..<n] q"
        by (auto simp: allocs_def)
      have "length a = n"
        using permutations_upt_props(1) [OF q [unfolded perms_def]] by (simp add: aq)
      then have "0 + int (length a) * B < 2 ^ 63" using bound(2) by simp
      from allocation_total_distance_ok [OF _ bound(1) [folded d_def] _ this] in_range a
      show "allocation_total_distance d a 0 = Inr (total_cost d a)" by simp
    qed
    then have "allocations_total_distances d allocs []
        = Inr ([] @ map (\<lambda>a. (a, total_cost d a)) allocs)"
      by (rule allocations_total_distances_ok [OF _ dist_allocs]) simp
    then show ?thesis
      by (simp add: passengers_allocations_cost_def Let_def nt np d_def [symmetric]
            perms_def [symmetric] allocs_def f_def comp_def)
  qed
  have "[0..<n] \<in> set perms"
    by (simp add: perms_def set_permutations)
  then obtain p0 rest where perms_eq: "perms = p0 # rest"
    by (cases perms) auto
  define r where "r = min_first snd (f p0) (map f rest)"
  from min_first_position [of "f p0" "map f rest" snd]
  obtain pre post where split: "f p0 # map f rest = pre @ r # post"
    and pre: "\<forall>x\<in>set pre. snd r < snd x"
    and post: "\<forall>x\<in>set post. snd r \<le> snd x"
    unfolding r_def by blast
  from split have "map f perms = pre @ r # post"
    by (simp add: perms_eq)
  then obtain ppre p ppost where perms_split: "perms = ppre @ p # ppost"
    and ppre: "map f ppre = pre" and rp: "f p = r" and ppost: "map f ppost = post"
    by (auto simp: map_eq_append_conv map_eq_Cons_conv)
  have p_in: "p \<in> set perms" using perms_split by simp
  have p_perm: "mset p = mset [0..<n]"
    using p_in by (simp add: perms_def set_permutations)
  have p_props: "length p = n" "set p = {0..<n}" "distinct p"
    using permutations_upt_props [OF p_in [unfolded perms_def]] by simp_all
  have min_key: "py_min_by_value (map f perms) = Inr (zip [0..<n] p)"
  proof -
    have "py_min_by_value (map f perms) = Inr (fst r)"
      by (simp add: py_min_by_value_def perms_eq r_def)
    also have "fst r = zip [0..<n] p"
      using rp by (auto simp: f_def)
    finally show ?thesis .
  qed
  have "distinct (map fst (zip [0..<n] p))"
    using p_props(1) by (simp add: map_fst_zip)
  then have "fold (\<lambda>(k, v) acc. dict_set k v acc) (zip [0..<n] p) [] = [] @ zip [0..<n] p"
    by (rule fold_dict_set_distinct) simp
  then have result: "optimal_assignment self = Inr (zip [0..<n] p)"
    by (simp add: optimal_assignment_def costs optimal_allocation_minimal_value_def min_key)
  have bij: "bij_betw ((!) p) {..<n} {..<n}"
  proof (rule bij_betw_nth)
    show "distinct p" by (rule p_props(3))
    show "{..<n} = {..<length p}" by (simp only: p_props(1))
    show "{..<n} = set p" by (simp only: p_props(2) lessThan_atLeast0)
  qed
  have minimal: "total_cost d (zip [0..<n] p) \<le> total_cost d (zip [0..<n] q)
      \<and> (total_cost d (zip [0..<n] q) = total_cost d (zip [0..<n] p) \<longrightarrow> p \<le> q)"
    if q: "mset q = mset [0..<n]" for q
  proof -
    have "q \<in> set perms" using q by (simp add: perms_def set_permutations)
    then consider "q \<in> set ppre" | "q = p" | "q \<in> set ppost"
      using perms_split by auto
    then show ?thesis
    proof cases
      case 1
      then have "f q \<in> set pre" using ppre by auto
      with pre have "snd r < snd (f q)" by blast
      then show ?thesis using rp by (auto simp: f_def)
    next
      case 2
      then show ?thesis by simp
    next
      case 3
      then have "f q \<in> set post" using ppost by auto
      with post have le: "snd r \<le> snd (f q)" by blast
      have "p < q"
        using sorted_perms 3 unfolding perms_split sorted_wrt_append by simp
      with le show ?thesis using rp by (auto simp: f_def)
    qed
  qed
  show ?thesis
    using result p_perm bij minimal unfolding d_def by blast
qed

theorem C1_optimal_assignment_witness:
  "well_shaped example_allocator_2x2
   \<and> entries_within 4 (distances example_allocator_2x2)
   \<and> optimal_assignment example_allocator_2x2 = Inr [(0, 1), (1, 0)]
   \<and> total_cost (distances example_allocator_2x2) [(0, 1), (1, 0)]
       \<le> total_cost (distances example_allocator_2x2) [(0, 0), (1, 1)]"
proof -
  let ?S = example_allocator_2x2
  have ws: "well_shaped ?S"
    by (simp add: well_shaped_def example_allocator_2x2_def counts_env_def)
  have nt: "num_taxis (taxi_env ?S) = 2" and np: "num_passengers (taxi_env ?S) = 2"
    by (simp_all add: example_allocator_2x2_def counts_env_def)
  have ew: "entries_within 4 (distances ?S)"
    by (simp add: entries_within_def example_allocator_2x2_def)
  have "int 2 * 4 < 2 ^ 63" by simp
  from C1_optimal_assignment [OF nt np ws ew this]
  obtain p where res: "optimal_assignment ?S = Inr (zip [0..<2] p)"
    and perm: "mset p = mset [0..<2]"
    and least: "\<forall>q. mset q = mset [0..<2] \<longrightarrow>
                  total_cost (distances ?S) (zip [0..<2] p)
                    \<le> total_cost (distances ?S) (zip [0..<2] q)"
    by blast
  have ev: "optimal_assignment ?S = Inr [(0, 1), (1, 0)]"
    by code_simp
  have z01: "zip [0..<2] [0, 1::nat] = [(0, 0), (1, 1)]"
    by code_simp
  from res ev have zp: "zip [0..<2] p = [(0, 1), (1, 0)]" by simp
  have "mset [0, 1::nat] = mset [0..<2]" by code_simp
  with least have "total_cost (distances ?S) (zip [0..<2] p)
      \<le> total_cost (distances ?S) (zip [0..<2] [0, 1::nat])"
    by blast
  then have "total_cost (distances ?S) [(0, 1), (1, 0)]
      \<le> total_cost (distances ?S) [(0, 0), (1, 1)]"
    unfolding zp z01 .
  with ws ew ev show ?thesis by blast
qed

text \<open>
  Without the bound the sums wrap as the code's do: here the identity allocation costs
  \<open>2 ^ 63\<close>, which wraps to \<open>- 2 ^ 63\<close>, below the cost \<open>0\<close> of the other allocation.
\<close>

lemma optimal_assignment_wraps:
  "optimal_assignment example_allocator_wrapping = Inr [(0, 0), (1, 1)]"
  by code_simp

text \<open>
  Claim C8, as amended. The number of taxis is assumed, not checked, to equal the
  number of passengers: for a distance matrix with one row per taxi and one column per
  passenger, whatever the two counts, the optimal assignment raises no error and
  returns an allocation of the first \<open>min num_taxis num_passengers\<close> taxis.
\<close>

theorem C8_no_count_check:
  assumes shape: "well_shaped self"
  shows "\<exists>alloc. optimal_assignment self = Inr alloc
           \<and> map fst alloc
               = [0..<min (num_taxis (taxi_env self)) (num_passengers (taxi_env self))]"
proof -
  define nt where "nt = num_taxis (taxi_env self)"
  define np where "np = num_passengers (taxi_env self)"
  define d where "d = distances self"
  define allocs where "allocs = map (\<lambda>q. zip [0..<nt] q) (permutations [0..<np])"
  have len_d: "length d = nt" and rows: "\<forall>row\<in>set d. length row = np"
    using shape by (simp_all add: well_shaped_def d_def nt_def np_def list_all_iff)
  have in_range: "\<forall>a\<in>set allocs. \<forall>(t, p)\<in>set a. t < length d \<and> p < length (d ! t)"
  proof (intro ballI)
    fix a tp assume a: "a \<in> set allocs" and tp: "tp \<in> set a"
    from a obtain q where q: "q \<in> set (permutations [0..<np])" and aq: "a = zip [0..<nt] q"
      by (auto simp: allocs_def)
    obtain t p where tpe: "tp = (t, p)" by (cases tp)
    from tp aq tpe have "t \<in> set [0..<nt]" and "p \<in> set q"
      by (auto dest: set_zip_leftD set_zip_rightD)
    then have "t < nt" and "p < np"
      using permutations_upt_props(2) [OF q] by auto
    then have "t < length d \<and> p < length (d ! t)"
      using len_d rows by simp
    then show "case tp of (t, p) \<Rightarrow> t < length d \<and> p < length (d ! t)"
      by (simp add: tpe)
  qed
  from allocations_total_distances_keys [OF in_range, of "[]"]
  obtain r where r: "allocations_total_distances d allocs [] = Inr r"
    and keys: "fst ` set r = set allocs"
    by auto
  have costs: "passengers_allocations_cost self = Inr r"
    using r by (simp add: passengers_allocations_cost_def Let_def allocs_def nt_def np_def d_def)
  have "[0..<np] \<in> set (permutations [0..<np])"
    by (simp add: set_permutations)
  then have "set allocs \<noteq> {}" by (auto simp: allocs_def)
  with keys have "r \<noteq> []" by auto
  from py_min_by_value_member [OF this] keys
  obtain a where a: "py_min_by_value r = Inr a" and "a \<in> set allocs"
    by auto
  then obtain q where q: "q \<in> set (permutations [0..<np])" and aq: "a = zip [0..<nt] q"
    by (auto simp: allocs_def)
  have len_q: "length q = np" by (rule permutations_upt_props(1) [OF q])
  have fsts: "map fst a = [0..<min nt np]"
    unfolding aq by (simp add: map_fst_zip_take len_q take_upt min_def)
  then have "distinct (map fst a)" by simp
  then have "fold (\<lambda>(k, v) acc. dict_set k v acc) a [] = [] @ a"
    by (rule fold_dict_set_distinct) simp
  then have "optimal_assignment self = Inr a"
    by (simp add: optimal_assignment_def costs optimal_allocation_minimal_value_def a)
  with fsts show ?thesis
    unfolding nt_def np_def by blast
qed

theorem C8_no_count_check_witness:
  "well_shaped example_allocator_1x2
   \<and> (\<exists>alloc. optimal_assignment example_allocator_1x2 = Inr alloc \<and> map fst alloc = [0])"
proof -
  have ws: "well_shaped example_allocator_1x2"
    by (simp add: well_shaped_def example_allocator_1x2_def counts_env_def)
  from C8_no_count_check [OF ws] ws show ?thesis
    by (simp add: example_allocator_1x2_def counts_env_def)
qed

text \<open>
  Claim C8 as stated fails: with one taxi and two passengers the optimal assignment
  returns an allocation, not an error.
\<close>

theorem C8_counterexample:
  "num_taxis (taxi_env example_allocator_1x2) \<noteq> num_passengers (taxi_env example_allocator_1x2)
   \<and> optimal_assignment example_allocator_1x2 = Inr [(0, 1)]"
  by code_simp

section \<open>The auction\<close>

lemma pop_allocated_result:
  "pop_allocated ts b = Inr b' \<Longrightarrow>
     b' = filter (\<lambda>(k, v). k \<notin> set ts) b \<and> set ts \<subseteq> fst ` set b"
proof (induction ts arbitrary: b)
  case Nil
  then show ?case by simp
next
  case (Cons t ts)
  from Cons.prems have t_in: "t \<in> fst ` set b"
    by (simp split: if_splits)
  with Cons.prems have "pop_allocated ts (filter (\<lambda>(k, v). k \<noteq> t) b) = Inr b'"
    by simp
  from Cons.IH [OF this]
  have b': "b' = filter (\<lambda>(k, v). k \<notin> set ts) (filter (\<lambda>(k, v). k \<noteq> t) b)"
    and sub: "set ts \<subseteq> fst ` set (filter (\<lambda>(k, v). k \<noteq> t) b)"
    by simp_all
  have "b' = filter (\<lambda>(k, v). k \<notin> set (t # ts)) b"
    unfolding b' filter_filter by (rule filter_cong) auto
  moreover have "set (t # ts) \<subseteq> fst ` set b"
    using sub t_in by auto
  ultimately show ?case by simp
qed

lemma py_min_by_value_result:
  "py_min_by_value d = Inr w \<Longrightarrow> w \<in> fst ` set d"
proof (cases d)
  case Nil
  assume "py_min_by_value d = Inr w"
  with Nil show ?thesis by (simp add: py_min_by_value_def)
next
  case (Cons kv rest)
  assume "py_min_by_value d = Inr w"
  then have "w = fst (min_first snd kv rest)"
    by (simp add: py_min_by_value_def Cons)
  moreover from min_first_position [of kv rest snd]
  have "min_first snd kv rest \<in> set (kv # rest)"
    by (metis in_set_conv_decomp)
  ultimately have "w \<in> fst ` set (kv # rest)" by (simp only: imageI)
  then show ?thesis by (simp only: Cons)
qed

lemma auction_step:
  assumes "auction_loop bs nt (p # ps) (s, al) = Inr r"
  obtains b w where "p < length bs"
    and "length (s (bs ! p)) = nt"
    and "b = filter (\<lambda>(k, v). k \<notin> fst ` set al) (s (bs ! p))"
    and "fst ` set al \<subseteq> fst ` set (s (bs ! p))"
    and "w \<in> fst ` set b"
    and "auction_loop bs nt ps (s(bs ! p := b), al @ [(w, p)]) = Inr r"
proof -
  from assms have lt: "p < length bs" and len: "length (s (bs ! p)) = nt"
    by (simp_all split: if_splits)
  from assms lt len obtain b where pop: "pop_allocated (map fst al) (s (bs ! p)) = Inr b"
    by (auto split: sum.splits)
  from assms lt len pop obtain w where w: "py_min_by_value b = Inr w"
    by (auto split: sum.splits)
  from assms lt len pop w
  have rec: "auction_loop bs nt ps (s(bs ! p := b), dict_set w p al) = Inr r"
    by simp
  from pop_allocated_result [OF pop]
  have b: "b = filter (\<lambda>(k, v). k \<notin> fst ` set al) (s (bs ! p))"
    and sub: "fst ` set al \<subseteq> fst ` set (s (bs ! p))"
    by simp_all
  have w_in: "w \<in> fst ` set b" by (rule py_min_by_value_result [OF w])
  then have "w \<notin> fst ` set al" unfolding b by force
  then have "dict_set w p al = al @ [(w, p)]" by (rule dict_set_fresh)
  with rec have "auction_loop bs nt ps (s(bs ! p := b), al @ [(w, p)]) = Inr r"
    by simp
  with lt len b sub w_in show thesis by (rule that)
qed

lemma auction_loop_shrinks:
  "auction_loop bs nt ps (s, al) = Inr (s', al') \<Longrightarrow> set (s' a) \<subseteq> set (s a)"
proof (induction ps arbitrary: s al)
  case Nil
  then show ?case by simp
next
  case (Cons p ps)
  from Cons.prems obtain b w where
    b: "b = filter (\<lambda>(k, v). k \<notin> fst ` set al) (s (bs ! p))"
    and rec: "auction_loop bs nt ps (s(bs ! p := b), al @ [(w, p)]) = Inr (s', al')"
    by (rule auction_step)
  from Cons.IH [OF rec] have "set (s' a) \<subseteq> set ((s(bs ! p := b)) a)" .
  also have "\<dots> \<subseteq> set (s a)" by (auto simp: b)
  finally show ?case .
qed

lemma auction_loop_allocations:
  "auction_loop bs nt ps (s, al) = Inr (s', al') \<Longrightarrow>
     \<exists>new. al' = al @ new \<and> map snd new = ps"
proof (induction ps arbitrary: s al)
  case Nil
  then show ?case by simp
next
  case (Cons p ps)
  from Cons.prems obtain b w where
    rec: "auction_loop bs nt ps (s(bs ! p := b), al @ [(w, p)]) = Inr (s', al')"
    by (rule auction_step)
  from Cons.IH [OF rec] obtain new where "al' = (al @ [(w, p)]) @ new" "map snd new = ps"
    by blast
  then have "al' = al @ ((w, p) # new) \<and> map snd ((w, p) # new) = p # ps" by simp
  then show ?case by (rule exI [of _ "(w, p) # new"])
qed

lemma auction_loop_popped:
  assumes "auction_loop bs nt ps (s, al) = Inr (s', al')" and "i < length ps"
    and "t \<in> fst ` set (take (length al + i) al')"
  shows "t \<in> fst ` set (s (bs ! (ps ! i))) \<and> t \<notin> fst ` set (s' (bs ! (ps ! i)))"
  using assms
proof (induction ps arbitrary: s al i)
  case Nil
  then show ?case by simp
next
  case (Cons p ps)
  from Cons.prems(1) obtain b w where
    b: "b = filter (\<lambda>(k, v). k \<notin> fst ` set al) (s (bs ! p))"
    and sub: "fst ` set al \<subseteq> fst ` set (s (bs ! p))"
    and rec: "auction_loop bs nt ps (s(bs ! p := b), al @ [(w, p)]) = Inr (s', al')"
    by (rule auction_step)
  from auction_loop_allocations [OF rec] obtain new where
    al': "al' = (al @ [(w, p)]) @ new" by blast
  show ?case
  proof (cases i)
    case 0
    with Cons.prems(3) have t_al: "t \<in> fst ` set al" by (simp add: al')
    with sub have "t \<in> fst ` set (s (bs ! p))" by blast
    moreover have "t \<notin> fst ` set ((s(bs ! p := b)) (bs ! p))"
      using t_al by (force simp: b)
    then have "t \<notin> fst ` set (s' (bs ! p))"
      using auction_loop_shrinks [OF rec, of "bs ! p"] by blast
    ultimately show ?thesis by (simp add: 0)
  next
    case (Suc j)
    with Cons.prems(2) have j: "j < length ps" by simp
    have "t \<in> fst ` set (take (length (al @ [(w, p)]) + j) al')"
      using Cons.prems(3) Suc by simp
    from Cons.IH [OF rec j this]
    have "t \<in> fst ` set ((s(bs ! p := b)) (bs ! (ps ! j)))"
      and out: "t \<notin> fst ` set (s' (bs ! (ps ! j)))"
      by simp_all
    then have "t \<in> fst ` set (s (bs ! (ps ! j)))"
      by (auto simp: b split: if_splits)
    with out show ?thesis by (simp add: Suc)
  qed
qed

text \<open>
  Claim C10. A call that returns has mutated the caller's dictionaries: for every
  passenger \<open>p\<close> after the first, every taxi \<open>t\<close> assigned to an earlier passenger
  \<open>q\<close> was a key of the dictionary \<open>biddings[p]\<close> before the call and is not one
  after it; the call adds or changes no entry of any dictionary; and with two or more
  passengers the store after the call differs from the store before it.
\<close>

theorem C10_bids_mutated:
  assumes "taxis_auction_allocation self biddings store = Inr (store', allocations)"
  shows "(\<forall>p q t. 0 < p \<and> p < num_passengers (taxi_env self) \<and> q < p
                 \<and> (t, q) \<in> set allocations \<longrightarrow>
            t \<in> fst ` set (store (biddings ! p))
            \<and> t \<notin> fst ` set (store' (biddings ! p)))
       \<and> (\<forall>ref. set (store' ref) \<subseteq> set (store ref))
       \<and> (2 \<le> num_passengers (taxi_env self) \<longrightarrow> store' \<noteq> store)"
proof -
  define np where "np = num_passengers (taxi_env self)"
  from assms have loop:
    "auction_loop biddings (num_taxis (taxi_env self)) [0..<np] (store, []) = Inr (store', allocations)"
    by (auto simp: taxis_auction_allocation_def np_def split: sum.splits if_splits)
  from auction_loop_allocations [OF loop] have snds: "map snd allocations = [0..<np]"
    by simp
  then have len: "length allocations = np"
    by (metis length_map length_upt minus_nat.diff_0)
  have popped: "t \<in> fst ` set (store (biddings ! p)) \<and> t \<notin> fst ` set (store' (biddings ! p))"
    if p: "p < np" and q: "q < p" and tq: "(t, q) \<in> set allocations" for p q t
  proof -
    from tq obtain i where i: "i < length allocations" and at: "allocations ! i = (t, q)"
      by (auto simp: in_set_conv_nth)
    have "snd (allocations ! i) = [0..<np] ! i"
      using i snds by (metis nth_map)
    with i len at have "q = i" by simp
    with q i at have "(t, q) \<in> set (take p allocations)"
      by (auto simp: in_set_conv_nth)
    then have "t \<in> fst ` set (take (length ([] :: (nat \<times> nat) list) + p) allocations)"
      by force
    from auction_loop_popped [OF loop _ this] p show ?thesis by simp
  qed
  have shrink: "set (store' ref) \<subseteq> set (store ref)" for ref
    by (rule auction_loop_shrinks [OF loop])
  have changed: "store' \<noteq> store" if "2 \<le> np"
  proof -
    from that len have pos: "0 < length allocations" by simp
    obtain t q0 where a0: "allocations ! 0 = (t, q0)" by (cases "allocations ! 0")
    have "snd (allocations ! 0) = map snd allocations ! 0"
      using pos by (simp only: nth_map)
    also have "\<dots> = [0..<np] ! 0" by (simp only: snds)
    also have "\<dots> = 0" using that by simp
    finally have "q0 = 0" by (simp add: a0)
    with a0 pos have "(t, 0) \<in> set allocations"
      by (metis nth_mem)
    with popped [of 1 0 t] that
    have "t \<in> fst ` set (store (biddings ! 1))" "t \<notin> fst ` set (store' (biddings ! 1))"
      by simp_all
    then show ?thesis by auto
  qed
  show ?thesis
    using popped shrink changed unfolding np_def by blast
qed

theorem C10_bids_mutated_witness:
  "\<exists>store'. taxis_auction_allocation auction_allocator [0, 1] ordered_bids_store
               = Inr (store', [(0, 0), (1, 1)])
           \<and> 0 \<in> fst ` set (ordered_bids_store 1)
           \<and> 0 \<notin> fst ` set (store' 1)
           \<and> store' \<noteq> ordered_bids_store"
proof -
  have "map_sum id snd (taxis_auction_allocation auction_allocator [0, 1] ordered_bids_store)
      = Inr [(0, 0), (1, 1)]"
    by code_simp
  then obtain store' where run:
    "taxis_auction_allocation auction_allocator [0, 1] ordered_bids_store
       = Inr (store', [(0, 0), (1, 1)])"
    by (cases "taxis_auction_allocation auction_allocator [0, 1] ordered_bids_store") auto
  have np: "num_passengers (taxi_env auction_allocator) = 2"
    by (simp add: auction_allocator_def counts_env_def)
  from C10_bids_mutated [OF run]
  have popped: "\<forall>p q t. 0 < p \<and> p < 2 \<and> q < p \<and> (t, q) \<in> set [(0, 0), (1, 1 :: nat)] \<longrightarrow>
            t \<in> fst ` set (ordered_bids_store ([0, 1] ! p))
            \<and> t \<notin> fst ` set (store' ([0, 1] ! p))"
    and changed: "store' \<noteq> ordered_bids_store"
    unfolding np by simp_all
  have "0 \<in> fst ` set (ordered_bids_store ([0, 1] ! 1))
      \<and> 0 \<notin> fst ` set (store' ([0, 1] ! 1))"
    by (rule popped [rule_format, of 1 0 0]) simp
  then have "0 \<in> fst ` set (ordered_bids_store 1) \<and> 0 \<notin> fst ` set (store' 1)"
    by simp
  with run changed show ?thesis by blast
qed

text \<open>
  Claim C6 fails on the code where a bid dictionary does not list its taxis in index
  order: \<open>min\<close> returns the first minimal key in the dictionary's own order. Both
  taxis bid 3 on passenger 0; the dictionary lists taxi 1 first, and taxi 1 wins the
  passenger, where the claim and the comment in the code give it to taxi 0.
\<close>

theorem C6_tie_follows_dictionary_order:
  "map_sum id snd (taxis_auction_allocation auction_allocator [0, 1] tied_bids_store)
     = Inr [(1, 0), (0, 1)]"
  by code_simp

text \<open>
  With the same bids listed in index order, as \<open>get_taxis_bids\<close> builds them, the
  tie goes to taxi 0.
\<close>

lemma auction_tie_in_index_order:
  "map_sum id snd (taxis_auction_allocation auction_allocator [0, 1] ordered_bids_store)
     = Inr [(0, 0), (1, 1)]"
  by code_simp

section \<open>The grid graph and its paths\<close>

lemma bind_result_Inr:
  "bind_result r f = Inr y \<Longrightarrow> \<exists>x. r = Inr x \<and> f x = Inr y"
  by (cases r) (simp_all add: bind_result_def)

lemma bind_result_Inl:
  "bind_result r f = Inl e \<Longrightarrow> r = Inl e \<or> (\<exists>x. r = Inr x \<and> f x = Inl e)"
  by (cases r) (simp_all add: bind_result_def)

lemma single_column_graph_init: "EnvGraph_init single_column_desc = Inr single_column_graph"
  by code_simp

lemma corridor_graph_init: "EnvGraph_init corridor_desc = Inr corridor_graph"
  by code_simp

lemma open_2x3_graph_init: "EnvGraph_init open_2x3_desc = Inr open_2x3_graph"
  by code_simp

lemma corridor_taxi_init_near:
  "SocialTaxi_init (corridor_env (0, 1) (0, 3)) 0 (Some 0) = Inr (corridor_taxi (0, 1) (0, 3))"
  by code_simp

lemma corridor_taxi_init_far:
  "SocialTaxi_init (corridor_env (0, 3) (0, 1)) 0 (Some 0) = Inr (corridor_taxi (0, 3) (0, 1))"
  by code_simp

lemma open_2x3_taxi_init: "SocialTaxi_init open_2x3_env 0 (Some 0) = Inr open_2x3_taxi"
  by code_simp









text \<open>
  Claim C2 fails on the code for a grid of one column, where a step to the south
  changes the node index by \<open>1\<close>, the difference that the decoding tests first and
  reads as east. On the map of two cells, one above the other, the path from \<open>(0, 0)\<close>
  down to \<open>(1, 0)\<close> comes with the action 2, east, and not with 0, south: replaying
  it does not lead to the returned coordinate. In a grid of two columns the same step
  south, from node 0 to node 2, is decoded as 0.
\<close>

theorem C2_single_column_path_decoded_east:
  "EnvGraph_init single_column_desc = Inr single_column_graph
   \<and> get_path single_column_graph (0, 0) (1, 0) = Inr ([(1, 0)], [2])
   \<and> direction_actions 2 [0, 2] = [0]"
  by code_simp

section \<open>The detour\<close>

lemma get_path_length_eq:
  "get_path g a b = Inr p \<Longrightarrow> get_path_length g a b = Inr (length (fst p))"
  by (simp add: get_path_length_def bind_result_def)

lemma drop_off_loop_last_minimum:
  "drop_off_loop g dest cs best = Inr r \<Longrightarrow>
     (\<forall>x\<in>set cs. \<exists>l. get_path_length g x dest = Inr l \<and> snd r \<le> l)
     \<and> snd r \<le> snd best
     \<and> ((r = best \<and> (\<forall>x\<in>set cs. \<exists>l. get_path_length g x dest = Inr l \<and> snd best < l))
         \<or> (\<exists>pre post. cs = pre @ fst r # post
               \<and> get_path_length g (fst r) dest = Inr (snd r)
               \<and> (\<forall>x\<in>set post. \<exists>l. get_path_length g x dest = Inr l \<and> snd r < l)))"
proof (induction cs arbitrary: best)
  case Nil
  then show ?case by simp
next
  case (Cons c cs)
  from Cons.prems obtain p where p: "get_path g c dest = Inr p"
    by (cases "get_path g c dest") simp_all
  define l0 where "l0 = length (fst p)"
  define best' where "best' = (if l0 \<le> snd best then (c, l0) else best)"
  have len_c: "get_path_length g c dest = Inr l0"
    using get_path_length_eq [OF p] by (simp add: l0_def)
  from Cons.prems p have rec: "drop_off_loop g dest cs best' = Inr r"
    by (simp add: best'_def l0_def split: if_splits)
  from Cons.IH [OF rec]
  have all: "\<forall>x\<in>set cs. \<exists>l. get_path_length g x dest = Inr l \<and> snd r \<le> l"
    and le: "snd r \<le> snd best'"
    and alt: "(r = best' \<and> (\<forall>x\<in>set cs. \<exists>l. get_path_length g x dest = Inr l \<and> snd best' < l))
         \<or> (\<exists>pre post. cs = pre @ fst r # post
               \<and> get_path_length g (fst r) dest = Inr (snd r)
               \<and> (\<forall>x\<in>set post. \<exists>l. get_path_length g x dest = Inr l \<and> snd r < l))"
    by blast+
  have b_le: "snd best' \<le> snd best" and b_l0: "l0 \<le> snd best \<Longrightarrow> best' = (c, l0)"
    and b_gt: "\<not> l0 \<le> snd best \<Longrightarrow> best' = best"
    by (simp_all add: best'_def)
  have r_l0: "snd r \<le> l0"
    using le b_l0 b_gt by (cases "l0 \<le> snd best") auto
  have part1: "\<forall>x\<in>set (c # cs). \<exists>l. get_path_length g x dest = Inr l \<and> snd r \<le> l"
    using all len_c r_l0 by simp
  have part2: "snd r \<le> snd best" using le b_le by simp
  from alt have part3:
    "(r = best \<and> (\<forall>x\<in>set (c # cs). \<exists>l. get_path_length g x dest = Inr l \<and> snd best < l))
       \<or> (\<exists>pre post. c # cs = pre @ fst r # post
             \<and> get_path_length g (fst r) dest = Inr (snd r)
             \<and> (\<forall>x\<in>set post. \<exists>l. get_path_length g x dest = Inr l \<and> snd r < l))"
  proof
    assume same: "r = best' \<and> (\<forall>x\<in>set cs. \<exists>l. get_path_length g x dest = Inr l \<and> snd best' < l)"
    show ?thesis
    proof (cases "l0 \<le> snd best")
      case True
      with b_l0 same have r: "r = (c, l0)" by simp
      have "c # cs = [] @ fst r # cs" by (simp add: r)
      moreover have "get_path_length g (fst r) dest = Inr (snd r)"
        using len_c by (simp add: r)
      moreover have "\<forall>x\<in>set cs. \<exists>l. get_path_length g x dest = Inr l \<and> snd r < l"
        using same by simp
      ultimately show ?thesis by blast
    next
      case False
      with b_gt same have "r = best" by simp
      moreover have "\<forall>x\<in>set (c # cs). \<exists>l. get_path_length g x dest = Inr l \<and> snd best < l"
        using same b_gt [OF False] len_c False by simp
      ultimately show ?thesis by blast
    qed
  next
    assume "\<exists>pre post. cs = pre @ fst r # post
               \<and> get_path_length g (fst r) dest = Inr (snd r)
               \<and> (\<forall>x\<in>set post. \<exists>l. get_path_length g x dest = Inr l \<and> snd r < l)"
    then obtain pre post where "cs = pre @ fst r # post"
      and g: "get_path_length g (fst r) dest = Inr (snd r)"
      and post: "\<forall>x\<in>set post. \<exists>l. get_path_length g x dest = Inr l \<and> snd r < l"
      by blast
    then have "c # cs = (c # pre) @ fst r # post" by simp
    with g post show ?thesis by blast
  qed
  from part1 part2 part3 show ?case by blast
qed

lemma py_index_last:
  "py_index xs (- 1) = Inr x \<Longrightarrow> xs \<noteq> [] \<and> x = last xs"
  by (cases xs rule: rev_cases) (auto simp: py_index_def split: if_splits)

lemma get_optimal_socail_drop_off_last_minimum:
  assumes "get_optimal_socail_drop_off self other = Inr (cor, len)"
  shows "\<exists>dest path acts pre post.
           py_index (passengers_destinations (taxi_env self)) other = Inr dest
         \<and> compute_optimal_path self = Inr (path, acts)
         \<and> path = pre @ cor # post
         \<and> get_path_length (env_graph self) cor dest = Inr len
         \<and> (\<forall>x\<in>set pre. \<exists>l. get_path_length (env_graph self) x dest = Inr l \<and> len \<le> l)
         \<and> (\<forall>x\<in>set post. \<exists>l. get_path_length (env_graph self) x dest = Inr l \<and> len < l)"
proof -
  from bind_result_Inr [OF assms [unfolded get_optimal_socail_drop_off_def]]
  obtain dest where dest: "py_index (passengers_destinations (taxi_env self)) other = Inr dest"
    and 1: "bind_result (compute_optimal_path self) (\<lambda>(optimal_path_cor, optimal_path_actions).
       bind_result (py_index optimal_path_cor (- 1)) (\<lambda>last_cor.
       bind_result (get_path (env_graph self) last_cor dest) (\<lambda>(cs, acts).
         drop_off_loop (env_graph self) dest optimal_path_cor (last_cor, length cs))))
       = Inr (cor, len)"
    by blast
  from bind_result_Inr [OF 1] obtain pa where pa: "compute_optimal_path self = Inr pa"
    and 2: "(case pa of (optimal_path_cor, optimal_path_actions) \<Rightarrow>
       bind_result (py_index optimal_path_cor (- 1)) (\<lambda>last_cor.
       bind_result (get_path (env_graph self) last_cor dest) (\<lambda>(cs, acts).
         drop_off_loop (env_graph self) dest optimal_path_cor (last_cor, length cs))))
       = Inr (cor, len)"
    by blast
  obtain path acts where pa_eq: "pa = (path, acts)" by (cases pa)
  from 2 have 3: "bind_result (py_index path (- 1)) (\<lambda>last_cor.
       bind_result (get_path (env_graph self) last_cor dest) (\<lambda>(cs, acts).
         drop_off_loop (env_graph self) dest path (last_cor, length cs)))
       = Inr (cor, len)"
    by (simp add: pa_eq)
  from bind_result_Inr [OF 3] obtain last_cor where lc: "py_index path (- 1) = Inr last_cor"
    and 4: "bind_result (get_path (env_graph self) last_cor dest) (\<lambda>(cs, acts).
         drop_off_loop (env_graph self) dest path (last_cor, length cs)) = Inr (cor, len)"
    by blast
  from bind_result_Inr [OF 4] obtain p where p: "get_path (env_graph self) last_cor dest = Inr p"
    and 5: "(case p of (cs, acts) \<Rightarrow>
         drop_off_loop (env_graph self) dest path (last_cor, length cs)) = Inr (cor, len)"
    by blast
  from 5 have loop: "drop_off_loop (env_graph self) dest path (last_cor, length (fst p)) = Inr (cor, len)"
    by (simp add: case_prod_unfold)
  from py_index_last [OF lc] have ne: "path \<noteq> []" and last: "last_cor = last path"
    by simp_all
  then have last_in: "last_cor \<in> set path" by simp
  have last_len: "get_path_length (env_graph self) last_cor dest = Inr (length (fst p))"
    by (rule get_path_length_eq [OF p])
  from drop_off_loop_last_minimum [OF loop]
  have all: "\<forall>x\<in>set path. \<exists>l. get_path_length (env_graph self) x dest = Inr l \<and> len \<le> l"
    and alt: "((cor, len) = (last_cor, length (fst p))
             \<and> (\<forall>x\<in>set path. \<exists>l. get_path_length (env_graph self) x dest = Inr l
                   \<and> length (fst p) < l))
         \<or> (\<exists>pre post. path = pre @ cor # post
               \<and> get_path_length (env_graph self) cor dest = Inr len
               \<and> (\<forall>x\<in>set post. \<exists>l. get_path_length (env_graph self) x dest = Inr l \<and> len < l))"
    by simp_all
  have "\<not> (\<forall>x\<in>set path. \<exists>l. get_path_length (env_graph self) x dest = Inr l
                   \<and> length (fst p) < l)"
  proof
    assume "\<forall>x\<in>set path. \<exists>l. get_path_length (env_graph self) x dest = Inr l
                   \<and> length (fst p) < l"
    with last_in obtain l where "get_path_length (env_graph self) last_cor dest = Inr l"
      and "length (fst p) < l" by blast
    with last_len show False by simp
  qed
  with alt obtain pre post where split: "path = pre @ cor # post"
    and len: "get_path_length (env_graph self) cor dest = Inr len"
    and post: "\<forall>x\<in>set post. \<exists>l. get_path_length (env_graph self) x dest = Inr l \<and> len < l"
    by blast
  have pre: "\<forall>x\<in>set pre. \<exists>l. get_path_length (env_graph self) x dest = Inr l \<and> len \<le> l"
    using all split by simp
  from dest pa [unfolded pa_eq] split len pre post show ?thesis by blast
qed

text \<open>
  Claim C4, as amended. The drop-off coordinate that \<open>get_optimal_socail_drop_off\<close>
  returns lies on the taxi's optimal path (to its own passenger, then to that
  passenger's destination) and is the coordinate of the path nearest to the candidate's
  destination, the returned length being that distance; of several coordinates of the
  path at that least distance it is the last one on the path: every coordinate after
  it is strictly farther, every coordinate before it at least as far.
\<close>

theorem C4_drop_off_last_minimum:
  assumes "get_optimal_socail_drop_off self other = Inr (cor, len)"
  shows "\<exists>dest path acts pre post.
           py_index (passengers_destinations (taxi_env self)) other = Inr dest
         \<and> compute_optimal_path self = Inr (path, acts)
         \<and> path = pre @ cor # post
         \<and> get_path_length (env_graph self) cor dest = Inr len
         \<and> (\<forall>x\<in>set pre. \<exists>l. get_path_length (env_graph self) x dest = Inr l \<and> len \<le> l)
         \<and> (\<forall>x\<in>set post. \<exists>l. get_path_length (env_graph self) x dest = Inr l \<and> len < l)"
  using assms by (rule get_optimal_socail_drop_off_last_minimum)

theorem C4_drop_off_last_minimum_witness:
  "get_optimal_socail_drop_off open_2x3_taxi 1 = Inr ((1, 2), 1)
   \<and> get_path_length open_2x3_graph (1, 2) (1, 1) = Inr 1"
proof -
  have run: "get_optimal_socail_drop_off open_2x3_taxi 1 = Inr ((1, 2), 1)"
    by code_simp
  have dest: "py_index (passengers_destinations (taxi_env open_2x3_taxi)) 1 = Inr (1, 1)"
    by code_simp
  from C4_drop_off_last_minimum [OF run] dest
  have "get_path_length (env_graph open_2x3_taxi) (1, 2) (1, 1) = Inr 1"
    by auto
  then have "get_path_length open_2x3_graph (1, 2) (1, 1) = Inr 1"
    by (simp add: open_2x3_taxi_def)
  with run show ?thesis by simp
qed

text \<open>
  Claim C4 as stated fails on ties. On the open grid of 2 rows and 3 columns the
  taxi's optimal path is \<open>(0, 1)\<close>, \<open>(0, 2)\<close>, \<open>(1, 2)\<close>; the candidate's destination
  \<open>(1, 1)\<close> is one step from \<open>(0, 1)\<close> and one step from \<open>(1, 2)\<close>. The claim selects
  the earlier \<open>(0, 1)\<close>; the code returns the later \<open>(1, 2)\<close>.
\<close>

theorem C4_counterexample:
  "map_sum id fst (compute_optimal_path open_2x3_taxi) = Inr [(0, 1), (0, 2), (1, 2)]
   \<and> get_path_length open_2x3_graph (0, 1) (1, 1) = Inr 1
   \<and> get_path_length open_2x3_graph (0, 2) (1, 1) = Inr 2
   \<and> get_path_length open_2x3_graph (1, 2) (1, 1) = Inr 1
   \<and> get_optimal_socail_drop_off open_2x3_taxi 1 = Inr ((1, 2), 1)"
  by code_simp

lemma get_optimal_socail_drop_off_length:
  assumes "get_optimal_socail_drop_off self other = Inr best"
  shows "\<exists>dest. py_index (passengers_destinations (taxi_env self)) other = Inr dest
           \<and> get_path_length (env_graph self) (fst best) dest = Inr (snd best)"
proof -
  from assms have "get_optimal_socail_drop_off self other = Inr (fst best, snd best)"
    by simp
  from get_optimal_socail_drop_off_last_minimum [OF this] show ?thesis
    by blast
qed

lemma close_passengers_body_Break:
  assumes "close_passengers_body self cur th other vars = Inr (Break (idx, dropc, pick))"
  shows "\<exists>loc dest best to_social direct.
           idx = Some (int other) \<and> dropc = Some (fst best) \<and> pick = Some loc
         \<and> Some (int other) \<noteq> passenger_index self
         \<and> py_index (passengers_status (taxi_env self)) (int other) = Inr 2
         \<and> py_index (passengers_start_locations (taxi_env self)) (int other) = Inr loc
         \<and> py_index (passengers_destinations (taxi_env self)) (int other) = Inr dest
         \<and> get_path (env_graph self) cur loc = Inr to_social
         \<and> int (length (snd to_social)) \<le> th
         \<and> get_path (env_graph self) loc dest = Inr direct
         \<and> get_optimal_socail_drop_off self (int other) = Inr best
         \<and> snd best < length (fst direct)"
  using assms unfolding close_passengers_body_def bind_result_def
  by (auto split: if_splits sum.splits prod.splits)

lemma close_passengers_body_Continue:
  "close_passengers_body self cur th other (i0, d0, p0) = Inr (Continue (i1, d1, p1)) \<Longrightarrow>
     d1 = d0 \<and> p1 = p0"
  by (auto simp: close_passengers_body_def bind_result_def split: if_splits sum.splits)

lemma close_passengers_body_Return:
  "close_passengers_body self cur th other vars = Inr (Return r) \<Longrightarrow> r = (None, None, None)"
  by (auto simp: close_passengers_body_def bind_result_def split: if_splits sum.splits prod.splits)

lemma close_passengers_loop_accepts:
  assumes "close_passengers_loop self cur th others (i0, d0, None) = Inr (Some pick, dropc, idx)"
  shows "\<exists>other\<in>set others. \<exists>vars.
           close_passengers_body self cur th other vars = Inr (Break (idx, dropc, Some pick))"
  using assms
proof (induction others arbitrary: i0 d0)
  case Nil
  then show ?case by simp
next
  case (Cons other others)
  from Cons.prems obtain step where
    body: "close_passengers_body self cur th other (i0, d0, None) = Inr step"
    by (cases "close_passengers_body self cur th other (i0, d0, None)") simp_all
  show ?case
  proof (cases step)
    case (Continue vars')
    obtain i1 d1 p1 where v: "vars' = (i1, d1, p1)" by (cases vars')
    from close_passengers_body_Continue [OF body [unfolded Continue v]]
    have "p1 = None" by simp
    with Cons.prems body Continue v
    have "close_passengers_loop self cur th others (i1, d1, None) = Inr (Some pick, dropc, idx)"
      by simp
    from Cons.IH [OF this] show ?thesis by auto
  next
    case (Break vars')
    obtain i1 d1 p1 where v: "vars' = (i1, d1, p1)" by (cases vars')
    from Cons.prems body Break v have "p1 = Some pick" "d1 = dropc" "i1 = idx"
      by simp_all
    with body Break v
    have "close_passengers_body self cur th other (i0, d0, None)
        = Inr (Break (idx, dropc, Some pick))"
      by simp
    then show ?thesis by auto
  next
    case (Return r)
    from close_passengers_body_Return [OF body [unfolded Return]] have "r = (None, None, None)" .
    with Cons.prems body Return show ?thesis by simp
  qed
qed

text \<open>
  Claim C3, as amended. Whenever \<open>get_close_passengers\<close> returns a pickup, it returns
  the waiting passenger it belongs to and a drop-off coordinate such that the pickup is
  within the threshold of the current coordinate and the distance from the drop-off
  coordinate to that passenger's destination is strictly less than the direct distance
  from the pickup to the destination. The distance from the pickup to the drop-off is
  not part of the comparison. A candidate without this strict improvement is never
  returned.
\<close>

theorem C3_accepted_drop_off_is_nearer:
  assumes "get_close_passengers self cur th = Inr (Some pick, dropc, idx)"
  shows "\<exists>other dest drop_cor to_social l_drop l_base.
           other < num_passengers (taxi_env self)
         \<and> idx = Some (int other) \<and> dropc = Some drop_cor
         \<and> py_index (passengers_start_locations (taxi_env self)) (int other) = Inr pick
         \<and> py_index (passengers_destinations (taxi_env self)) (int other) = Inr dest
         \<and> get_path (env_graph self) cur pick = Inr to_social
         \<and> int (length (snd to_social)) \<le> th
         \<and> get_path_length (env_graph self) drop_cor dest = Inr l_drop
         \<and> get_path_length (env_graph self) pick dest = Inr l_base
         \<and> l_drop < l_base"
proof -
  from assms have "close_passengers_loop self cur th [0..<num_passengers (taxi_env self)]
      (None, None, None) = Inr (Some pick, dropc, idx)"
    by (simp add: get_close_passengers_def)
  from close_passengers_loop_accepts [OF this]
  obtain other vars where other: "other < num_passengers (taxi_env self)"
    and body: "close_passengers_body self cur th other vars = Inr (Break (idx, dropc, Some pick))"
    by auto
  from close_passengers_body_Break [OF body]
  obtain dest best to_social direct where idx: "idx = Some (int other)"
    and dropc: "dropc = Some (fst best)"
    and start: "py_index (passengers_start_locations (taxi_env self)) (int other) = Inr pick"
    and dest: "py_index (passengers_destinations (taxi_env self)) (int other) = Inr dest"
    and ts: "get_path (env_graph self) cur pick = Inr to_social"
    and budget: "int (length (snd to_social)) \<le> th"
    and direct: "get_path (env_graph self) pick dest = Inr direct"
    and best: "get_optimal_socail_drop_off self (int other) = Inr best"
    and better: "snd best < length (fst direct)"
    by auto
  from get_optimal_socail_drop_off_length [OF best] dest
  have l_drop: "get_path_length (env_graph self) (fst best) dest = Inr (snd best)"
    by auto
  have l_base: "get_path_length (env_graph self) pick dest = Inr (length (fst direct))"
    by (rule get_path_length_eq [OF direct])
  from other idx dropc start dest ts budget l_drop l_base better
  show ?thesis by blast
qed

theorem C3_accepted_drop_off_is_nearer_witness:
  "get_close_passengers (corridor_taxi (0, 1) (0, 3)) (0, 0) 3
     = Inr (Some (0, 1), Some (0, 3), Some 1)
   \<and> (\<exists>l_drop l_base. get_path_length corridor_graph (0, 3) (0, 3) = Inr l_drop
         \<and> get_path_length corridor_graph (0, 1) (0, 3) = Inr l_base
         \<and> l_drop < l_base)"
proof -
  let ?T = "corridor_taxi (0, 1) (0, 3)"
  have run: "get_close_passengers ?T (0, 0) 3 = Inr (Some (0, 1), Some (0, 3), Some 1)"
    by code_simp
  have dest: "py_index (passengers_destinations (taxi_env ?T)) (int 1) = Inr (0, 3)"
    by code_simp
  have g: "env_graph ?T = corridor_graph"
    by (simp add: corridor_taxi_def)
  from C3_accepted_drop_off_is_nearer [OF run]
  obtain other dest' drop_cor l_drop l_base where "Some (1::int) = Some (int other)"
    and "Some (0, 3) = Some drop_cor"
    and d: "py_index (passengers_destinations (taxi_env ?T)) (int other) = Inr dest'"
    and l: "get_path_length (env_graph ?T) drop_cor dest' = Inr l_drop"
      "get_path_length (env_graph ?T) (0, 1) dest' = Inr l_base" "l_drop < l_base"
    by blast
  then have "other = 1" and "drop_cor = (0, 3)" by simp_all
  with d dest have "dest' = (0, 3)" by simp
  with l g \<open>drop_cor = (0, 3)\<close>
  have "get_path_length corridor_graph (0, 3) (0, 3) = Inr l_drop
      \<and> get_path_length corridor_graph (0, 1) (0, 3) = Inr l_base \<and> l_drop < l_base"
    by simp
  with run show ?thesis by blast
qed

text \<open>
  Claim C3 as stated fails. On the corridor of four cells the taxi at \<open>(0, 0)\<close> accepts
  the passenger waiting at \<open>(0, 1)\<close> for \<open>(0, 3)\<close>, with drop-off at \<open>(0, 3)\<close>: the
  distance from the drop-off to the destination is 0, but the resulting distance of the
  claim, with the two steps from the pickup to the drop-off added, is 2, which is not
  strictly less than the direct distance 2.
\<close>

theorem C3_counterexample:
  "get_close_passengers (corridor_taxi (0, 1) (0, 3)) (0, 0) 3
     = Inr (Some (0, 1), Some (0, 3), Some 1)
   \<and> resulting_distance corridor_graph (0, 1) (0, 3) (0, 3) = Inr 2
   \<and> get_path_length corridor_graph (0, 1) (0, 3) = Inr 2"
  by code_simp

text \<open>
  Claim C7 fails on the code where a passenger is waiting out of reach. On the
  corridor the only other passenger waits at \<open>(0, 3)\<close>, three steps from the taxi at
  \<open>(0, 0)\<close>, and the threshold is 1: no candidate is within the budget, and the result
  is \<open>(None, None, 1)\<close>, with the index of the last waiting passenger that was looked at,
  not the empty result of the claim.
\<close>

theorem C7_index_of_rejected_passenger_returned:
  "get_path_length corridor_graph (0, 0) (0, 3) = Inr 3
   \<and> get_close_passengers (corridor_taxi (0, 3) (0, 1)) (0, 0) 1 = Inr (None, None, Some 1)"
  by code_simp

section \<open>The path of a taxi\<close>

text \<open>
  Claim C9. Called with no destination on a taxi whose \<open>passenger_index\<close> is 0,
  \<open>compute_shortest_path\<close> empties \<open>path_cords\<close> and \<open>path_actions\<close>, as it does for a
  taxi whose \<open>passenger_index\<close> is \<open>None\<close>; the path to the passenger's destination is
  computed for every other index only.
\<close>

theorem C9_passenger_zero_treated_as_none:
  assumes "passenger_index self = Some 0"
    and "py_index (taxis_locations (taxi_env self)) (taxi_index self) = Inr loc"
  shows "compute_shortest_path self None = Inr (self\<lparr>path_cords := [], path_actions := []\<rparr>)
       \<and> compute_shortest_path (self\<lparr>passenger_index := None\<rparr>) None
           = Inr (self\<lparr>passenger_index := None, path_cords := [], path_actions := []\<rparr>)
       \<and> (\<forall>i. i \<noteq> 0 \<longrightarrow>
             compute_shortest_path (self\<lparr>passenger_index := Some i\<rparr>) None
               = bind_result (py_index (passengers_destinations (taxi_env self)) i)
                   (\<lambda>d. compute_shortest_path (self\<lparr>passenger_index := Some i\<rparr>) (Some d)))"
  using assms
  by (auto simp: compute_shortest_path_def bind_result_def Let_def split: sum.splits)

theorem C9_passenger_zero_treated_as_none_witness:
  "passenger_index open_2x3_taxi = Some 0
   \<and> py_index (passengers_destinations (taxi_env open_2x3_taxi)) 0 = Inr (1, 2)
   \<and> get_path_length open_2x3_graph (0, 0) (1, 2) = Inr 3
   \<and> compute_shortest_path open_2x3_taxi None
       = Inr (open_2x3_taxi\<lparr>path_cords := [], path_actions := []\<rparr>)"
proof -
  have pi: "passenger_index open_2x3_taxi = Some 0"
    by (simp add: open_2x3_taxi_def)
  have loc: "py_index (taxis_locations (taxi_env open_2x3_taxi)) (taxi_index open_2x3_taxi)
      = Inr (0, 0)"
    by code_simp
  have "py_index (passengers_destinations (taxi_env open_2x3_taxi)) 0 = Inr (1, 2)"
    by code_simp
  moreover have "get_path_length open_2x3_graph (0, 0) (1, 2) = Inr 3"
    by code_simp
  ultimately show ?thesis
    using C9_passenger_zero_treated_as_none [OF pi loc] pi by simp
qed

end
